theory Spec2Isabelle
  imports Main "HOL-Library.Word" "HOL-Library.Signed_Division"
begin

section \<open>Machine integers of the C sources\<close>

text \<open>
  The sources use \<open>uint32_t\<close>, \<open>uint64_t\<close>, \<open>long\<close>, \<open>unsigned long\<close> and \<open>time_t\<close>.
  They are words of the stated width; a signed type is a word read through \<open>sint\<close>.
  C division of signed operands truncates towards zero.
\<close>

definition c_sdiv :: "'a::len word \<Rightarrow> 'a word \<Rightarrow> 'a word" where
  "c_sdiv a b = word_of_int (sint a sdiv sint b)"

text \<open>\<open>struct timespec\<close>: \<open>time_t tv_sec\<close> of type \<open>'t\<close>, \<open>long tv_nsec\<close> of type \<open>'l\<close>.\<close>

record ('t, 'l) timespec =
  tv_sec :: "'t"
  tv_nsec :: "'l"

type_synonym timespec64 = "(64 word, 64 word) timespec"

section \<open>time.c, POSIX branch (64-bit \<open>time_t\<close> and \<open>long\<close>)\<close>

text \<open>
  The clocks the operating system offers. \<open>clock_gettime\<close> either fills the \<open>timespec\<close>
  and returns 0 (\<open>Some\<close>) or fails and leaves it untouched (\<open>None\<close>); \<open>uninit_ts\<close> is what
  the local variable \<open>ts\<close> of \<open>ts_gettime\<close> holds before any call writes it;
  \<open>has_CLOCK_MONOTONIC\<close> is the compile-time \<open>#ifdef\<close>.
\<close>

record ('t, 'l) posix_clock =
  has_CLOCK_MONOTONIC :: bool
  clock_monotonic :: "('t, 'l) timespec option"
  clock_realtime :: "('t, 'l) timespec option"
  uninit_ts :: "('t, 'l) timespec"

definition ts_gettime :: "('t, 'l) posix_clock \<Rightarrow> ('t, 'l) timespec" where
  "ts_gettime clk =
     (case (if has_CLOCK_MONOTONIC clk then clock_monotonic clk else None) of
        Some ts \<Rightarrow> ts
      | None \<Rightarrow> (case clock_realtime clk of Some ts \<Rightarrow> ts | None \<Rightarrow> uninit_ts clk))"

definition MILLISECONDS :: "'a::len word" where
  "MILLISECONDS = 1000"

definition MICROSECONDS :: "'a::len word" where
  "MICROSECONDS = 1000000"

text \<open>
  \<open>return ((uint64_t) ts.tv_sec * MILLISECONDS) + (ts.tv_nsec / 1000000);\<close>
  The cast keeps the 64 bits; the quotient is a signed \<open>long\<close> division whose result is
  converted to \<open>uint64_t\<close> by the addition.
\<close>

definition ms_of_timespec :: "timespec64 \<Rightarrow> 64 word" where
  "ms_of_timespec ts = (tv_sec ts * MILLISECONDS) + c_sdiv (tv_nsec ts) 1000000"

definition us_of_timespec :: "timespec64 \<Rightarrow> 64 word" where
  "us_of_timespec ts = (tv_sec ts * MICROSECONDS) + c_sdiv (tv_nsec ts) 1000"

definition milliseconds :: "(64 word, 64 word) posix_clock \<Rightarrow> 64 word" where
  "milliseconds clk = ms_of_timespec (ts_gettime clk)"

definition microseconds :: "(64 word, 64 word) posix_clock \<Rightarrow> 64 word" where
  "microseconds clk = us_of_timespec (ts_gettime clk)"

text \<open>
  \<open>#define millielapsed(ms)  ( milliseconds() - ms )\<close> and
  \<open>#define microelapsed(us)  ( microseconds() - us )\<close>, applied to a value of the
  timestamp type as the callers in the test program do.
\<close>

definition millielapsed :: "(64 word, 64 word) posix_clock \<Rightarrow> 64 word \<Rightarrow> 64 word" where
  "millielapsed clk ms = milliseconds clk - ms"

definition microelapsed :: "(64 word, 64 word) posix_clock \<Rightarrow> 64 word \<Rightarrow> 64 word" where
  "microelapsed clk us = microseconds clk - us"

section \<open>mptime.h, POSIX branch (\<open>long\<close> of width \<open>'l\<close>, \<open>time_t\<close> of width \<open>'t\<close>)\<close>

text \<open>
  \<open>return ((long) ts.tv_sec * MILLISECONDS) + (ts.tv_nsec / 1000000L);\<close>
  All arithmetic is in \<open>long\<close>. The cast truncates a wider \<open>time_t\<close>; an overflowing
  signed product or sum wraps around in two's complement, which is the range the
  header's own note (\<open>Assuming 4 byte long, time range is ...\<close>) describes.
\<close>

definition mp_ms_of_timespec :: "('t::len word, 'l::len word) timespec \<Rightarrow> 'l word" where
  "mp_ms_of_timespec ts = (scast (tv_sec ts) * MILLISECONDS) + c_sdiv (tv_nsec ts) 1000000"

definition mp_us_of_timespec :: "('t::len word, 'l::len word) timespec \<Rightarrow> 'l word" where
  "mp_us_of_timespec ts = (scast (tv_sec ts) * MICROSECONDS) + c_sdiv (tv_nsec ts) 1000"

definition mp_milliseconds :: "('t::len word, 'l::len word) posix_clock \<Rightarrow> 'l word" where
  "mp_milliseconds clk = mp_ms_of_timespec (ts_gettime clk)"

definition mp_microseconds :: "('t::len word, 'l::len word) posix_clock \<Rightarrow> 'l word" where
  "mp_microseconds clk = mp_us_of_timespec (ts_gettime clk)"

definition mp_millielapsed :: "('t::len word, 'l::len word) posix_clock \<Rightarrow> 'l word \<Rightarrow> 'l word" where
  "mp_millielapsed clk ms = mp_milliseconds clk - ms"

definition mp_microelapsed :: "('t::len word, 'l::len word) posix_clock \<Rightarrow> 'l word \<Rightarrow> 'l word" where
  "mp_microelapsed clk us = mp_microseconds clk - us"

section \<open>mptime.h, Windows branch\<close>

text \<open>
  Signed division with the two cases C leaves undefined as \<open>None\<close>: a zero divisor and
  the quotient of the least value by \<open>-1\<close>.
\<close>

definition c_sdiv_opt :: "'a::len word \<Rightarrow> 'a word \<Rightarrow> 'a word option" where
  "c_sdiv_opt a b =
     (if b = 0 \<or> (sint a = - (2 ^ (LENGTH('a) - 1)) \<and> sint b = - 1) then None
      else Some (c_sdiv a b))"

text \<open>
  \<open>Freq_mptime\<close> is the file-static \<open>LARGE_INTEGER\<close> (its \<open>QuadPart\<close>);
  \<open>performance_frequency\<close> and \<open>performance_counter\<close> are what
  \<open>QueryPerformanceFrequency\<close> and \<open>QueryPerformanceCounter\<close> store.
  \<open>if(Freq_mptime.QuadPart == 0) QueryPerformanceFrequency(&Freq_mptime);\<close>
  \<open>QueryPerformanceCounter(&count);\<close>
  \<open>return (long) ((count.QuadPart * MILLISECONDS) / Freq_mptime.QuadPart);\<close>
  The product and quotient are 64-bit signed; \<open>long\<close> has 4 bytes on Windows and the
  cast keeps the low 32 bits.
\<close>

record win_timer =
  Freq_mptime :: "64 word"
  performance_frequency :: "64 word"
  performance_counter :: "64 word"

definition mp_win_milliseconds :: "win_timer \<Rightarrow> 32 word option \<times> win_timer" where
  "mp_win_milliseconds w =
     (let w1 = (if Freq_mptime w = 0 then w\<lparr>Freq_mptime := performance_frequency w\<rparr> else w);
          count = performance_counter w1
      in (map_option ucast (c_sdiv_opt (count * MILLISECONDS) (Freq_mptime w1)), w1))"

definition mp_win_microseconds :: "win_timer \<Rightarrow> 32 word option \<times> win_timer" where
  "mp_win_microseconds w =
     (let w1 = (if Freq_mptime w = 0 then w\<lparr>Freq_mptime := performance_frequency w\<rparr> else w);
          count = performance_counter w1
      in (map_option ucast (c_sdiv_opt (count * MICROSECONDS) (Freq_mptime w1)), w1))"

text \<open>
  Reference values for the range statements: the whole milliseconds and microseconds a
  \<open>timespec\<close> denotes, as unbounded integers, and the number of non-negative values a
  4-byte signed \<open>long\<close> holds.
\<close>

definition exact_ms :: "('t::len word, 'l::len word) timespec \<Rightarrow> int" where
  "exact_ms ts = sint (tv_sec ts) * 1000 + sint (tv_nsec ts) div 1000000"

definition exact_us :: "('t::len word, 'l::len word) timespec \<Rightarrow> int" where
  "exact_us ts = sint (tv_sec ts) * 1000000 + sint (tv_nsec ts) div 1000"

definition long4_range :: int where
  "long4_range = 2 ^ (LENGTH(32) - 1)"

text \<open>
  For the Windows timer: the frequency a call divides by, and the exact number of
  \<open>1 / per_second\<close> units the counter denotes.
\<close>

definition win_frequency :: "win_timer \<Rightarrow> 64 word" where
  "win_frequency w = (if Freq_mptime w = 0 then performance_frequency w else Freq_mptime w)"

definition win_exact :: "int \<Rightarrow> win_timer \<Rightarrow> int" where
  "win_exact per_second w = sint (performance_counter w) * per_second div sint (win_frequency w)"

section \<open>\<open>millisleep\<close>, POSIX branches\<close>

text \<open>
  \<open>nanosleep(&ts, &ts)\<close> is the operating system's: it takes the request and the state
  of the world and gives its return value, the remaining time it writes back through its
  second argument, and the new world.
\<close>

type_synonym 'w nanosleep_fn = "timespec64 \<Rightarrow> 'w \<Rightarrow> int \<times> timespec64 \<times> 'w"

text \<open>
  time.c: \<open>void millisleep(uint32_t ms)\<close>.
  \<open>sec = ms / MILLISECONDS; ts.tv_sec = sec;\<close>
  \<open>ts.tv_nsec = (ms - (sec * MILLISECONDS)) * 1000000;\<close> in \<open>uint32_t\<close> arithmetic, then
  widened to the 64-bit fields. \<open>millisleep_ts\<close> is the local \<open>ts\<close> at the call of
  \<open>nanosleep\<close>; the call is made once and its result is dropped.
\<close>

definition millisleep_ts :: "32 word \<Rightarrow> timespec64" where
  "millisleep_ts ms =
     (let sec = ms div MILLISECONDS
      in \<lparr>tv_sec = ucast sec, tv_nsec = ucast ((ms - (sec * MILLISECONDS)) * 1000000)\<rparr>)"

definition millisleep :: "'w nanosleep_fn \<Rightarrow> 32 word \<Rightarrow> 'w \<Rightarrow> 'w" where
  "millisleep nanosleep ms w =
     (let ts = millisleep_ts ms; (r, ts', w') = nanosleep ts w in w')"

text \<open>
  mptime.h: \<open>static inline void millisleep(unsigned long ms)\<close> with 64-bit \<open>long\<close>.
  \<open>ts.tv_sec = (time_t) (ms / MILLISECONDS);\<close>
  \<open>ts.tv_nsec = (long) ((ms - (ts.tv_sec * MILLISECONDS)) * 1000000L);\<close>
  The product \<open>ts.tv_sec * MILLISECONDS\<close> is a signed one; the model takes its
  two's-complement bits, which the subtraction from the unsigned \<open>ms\<close> reads.
\<close>

definition mp_millisleep_ts :: "64 word \<Rightarrow> timespec64" where
  "mp_millisleep_ts ms =
     (let sec = ms div MILLISECONDS
      in \<lparr>tv_sec = sec, tv_nsec = (ms - (sec * MILLISECONDS)) * 1000000\<rparr>)"

definition mp_millisleep :: "'w nanosleep_fn \<Rightarrow> 64 word \<Rightarrow> 'w \<Rightarrow> 'w" where
  "mp_millisleep nanosleep ms w =
     (let ts = mp_millisleep_ts ms; (r, ts', w') = nanosleep ts w in w')"

text \<open>
  A model of POSIX \<open>nanosleep\<close> to run \<open>millisleep\<close> against. The world holds the elapsed
  monotonic time in nanoseconds, the requests received so far (oldest first), the time
  until a signal is delivered to the thread (if one is on its way) and the scheduler's
  delay in waking the thread. An invalid request fails at once; a signal that arrives
  before the requested time has passed ends the sleep early with \<open>-1\<close> and the remaining
  time; otherwise the thread is suspended for the requested time plus the delay.
\<close>

record sleep_os =
  elapsed_ns :: int
  nap_requests :: "timespec64 list"
  signal_in :: "nat option"
  wake_delay :: nat

definition posix_nanosleep :: "sleep_os nanosleep_fn" where
  "posix_nanosleep req os =
     (let os1 = os\<lparr>nap_requests := nap_requests os @ [req]\<rparr>;
          want = sint (tv_sec req) * 1000000000 + sint (tv_nsec req)
      in if sint (tv_sec req) < 0 \<or> sint (tv_nsec req) < 0 \<or> 999999999 < sint (tv_nsec req)
         then (- 1, req, os1)
         else (case signal_in os of
                 None \<Rightarrow> (0, req, os1\<lparr>elapsed_ns := elapsed_ns os + want + int (wake_delay os)\<rparr>)
               | Some k \<Rightarrow>
                   if int k < want
                   then (- 1,
                         \<lparr>tv_sec = word_of_int ((want - int k) div 1000000000),
                          tv_nsec = word_of_int ((want - int k) mod 1000000000)\<rparr>,
                         os1\<lparr>elapsed_ns := elapsed_ns os + int k, signal_in := None\<rparr>)
                   else (0, req,
                         os1\<lparr>elapsed_ns := elapsed_ns os + want + int (wake_delay os),
                             signal_in := Some (k - nat want)\<rparr>)))"

section \<open>thread.c and mpthread.h: waiting for threads\<close>

text \<open>
  \<open>ThreadID\<close> is \<open>pthread_t\<close> on the UNIX branch and \<open>DWORD\<close> on the Windows branch.
  The operating system's side of a join is a log of the handles it was asked about
  (oldest first) and the answer it gives to the \<open>n\<close>-th request about a handle.
\<close>

type_synonym pthread_t = "64 word"
type_synonym DWORD = "32 word"

record ('h, 'o) join_os =
  joins :: "'h list"
  outcome :: "nat \<Rightarrow> 'h \<Rightarrow> 'o"

text \<open>
  A \<open>thread_wait\<close> takes the value stored at \<open>threadid\<close> and the world, and gives its
  return value, the value it leaves at \<open>threadid\<close>, and the new world.
\<close>

type_synonym ('h, 'w) wait_fn = "'h \<Rightarrow> 'w \<Rightarrow> int \<times> 'h \<times> 'w"

definition pthread_join ::
  "pthread_t \<Rightarrow> (pthread_t, int) join_os \<Rightarrow> int \<times> (pthread_t, int) join_os" where
  "pthread_join t os = (outcome os (length (joins os)) t, os\<lparr>joins := joins os @ [t]\<rparr>)"

text \<open>
  thread.c, UNIX: \<open>ecode = pthread_join(*threadid, NULL); *threadid = 0; return ecode;\<close>
\<close>

definition thread_wait :: "(pthread_t, (pthread_t, int) join_os) wait_fn" where
  "thread_wait threadid os =
     (let (ecode, os') = pthread_join threadid os
      in (ecode, 0, os'))"

text \<open>mpthread.h, POSIX: \<open>#define thread_wait(tid)  pthread_join(*(tid),NULL)\<close>\<close>

definition mp_thread_wait :: "(pthread_t, (pthread_t, int) join_os) wait_fn" where
  "mp_thread_wait tid os =
     (let (r, os') = pthread_join tid os
      in (r, tid, os'))"

text \<open>
  What Windows answers during one \<open>thread_wait\<close>: the handle \<open>OpenThread\<close> returns
  (\<open>None\<close> for \<open>NULL\<close>), the value of \<open>WaitForSingleObject\<close>, and the value \<open>GetLastError\<close>
  gives when it is asked.
\<close>

record win_answers =
  open_thread :: "nat option"
  wait_result :: DWORD
  last_error :: DWORD

text \<open>
  thread.c, Windows:
  \<open>hThread = OpenThread(SYNCHRONIZE, FALSE, *threadid);\<close>
  \<open>if(hThread == NULL) return GetLastError();\<close>
  \<open>if(WaitForSingleObject(hThread, INFINITE)) ecode = GetLastError();\<close>
  \<open>CloseHandle(hThread); *threadid = 0; return ecode;\<close>
\<close>

definition win_thread_wait :: "(DWORD, (DWORD, win_answers) join_os) wait_fn" where
  "win_thread_wait threadid os =
     (let a = outcome os (length (joins os)) threadid;
          os' = os\<lparr>joins := joins os @ [threadid]\<rparr>
      in case open_thread a of
           None \<Rightarrow> (sint (last_error a), threadid, os')
         | Some hThread \<Rightarrow>
             (let ecode = (if wait_result a \<noteq> 0 then sint (last_error a) else 0)
              in (ecode, 0, os')))"

text \<open>mpthread.h, Windows: the same without the assignment to \<open>*threadid\<close>.\<close>

definition mp_win_thread_wait :: "(DWORD, (DWORD, win_answers) join_os) wait_fn" where
  "mp_win_thread_wait threadid os =
     (let a = outcome os (length (joins os)) threadid;
          os' = os\<lparr>joins := joins os @ [threadid]\<rparr>
      in case open_thread a of
           None \<Rightarrow> (sint (last_error a), threadid, os')
         | Some hThread \<Rightarrow>
             (let ecode = (if wait_result a \<noteq> 0 then sint (last_error a) else 0)
              in (ecode, threadid, os')))"

text \<open>
  \<open>thread_multiwait(ThreadID *tidlist, int len)\<close>, the same in both files:
  \<open>ecode = temp = 0;\<close>
  \<open>for(i = 0; i < len; i++) { temp = thread_wait(&tidlist[i]); if(temp && !ecode) ecode = temp; }\<close>
  \<open>return ecode;\<close>
  The array is a list; an index beyond it is a fault of the caller, which C does not
  define. The result is the return value, the array as the calls left it, and the world.
\<close>

datatype fault = OutOfBounds

function multiwait_loop ::
  "('h, 'w) wait_fn \<Rightarrow> 'h list \<Rightarrow> int \<Rightarrow> int \<Rightarrow> int \<Rightarrow> 'w \<Rightarrow> fault + (int \<times> 'h list \<times> 'w)" where
  "multiwait_loop wait tidlist len i ecode w =
     (if i < len then
        (if 0 \<le> i \<and> nat i < length tidlist then
           (let (temp, h, w') = wait (tidlist ! nat i) w;
                ecode' = (if temp \<noteq> 0 \<and> ecode = 0 then temp else ecode)
            in multiwait_loop wait (tidlist[nat i := h]) len (i + 1) ecode' w')
         else Inl OutOfBounds)
      else Inr (ecode, tidlist, w))"
  by pat_completeness auto
termination
  by (relation "measure (\<lambda>(wait, tidlist, len, i, ecode, w). nat (len - i))") auto

declare multiwait_loop.simps [simp del]

definition thread_multiwait ::
  "('h, 'w) wait_fn \<Rightarrow> 'h list \<Rightarrow> int \<Rightarrow> 'w \<Rightarrow> fault + (int \<times> 'h list \<times> 'w)" where
  "thread_multiwait wait tidlist len w = multiwait_loop wait tidlist len 0 0 w"

text \<open>
  The specification of the multiple join, in the words of the design: every handle is
  waited on once, in order, whatever the earlier results were (\<open>wait_each\<close> gives the
  results, the handles as left behind, and the world), and the first error met is
  reported (\<open>first_error\<close>). \<open>join_results\<close> lists the answers the operating system gives
  to consecutive requests starting with the \<open>n\<close>-th.
\<close>

fun wait_each :: "('h, 'w) wait_fn \<Rightarrow> 'h list \<Rightarrow> 'w \<Rightarrow> int list \<times> 'h list \<times> 'w" where
  "wait_each wait [] w = ([], [], w)"
| "wait_each wait (t # ts) w =
     (let (r, h, w1) = wait t w;
          (rs, hs, w2) = wait_each wait ts w1
      in (r # rs, h # hs, w2))"

definition first_error :: "int list \<Rightarrow> int" where
  "first_error rs = (case find (\<lambda>r. r \<noteq> 0) rs of None \<Rightarrow> 0 | Some e \<Rightarrow> e)"

fun join_results :: "('h, 'o) join_os \<Rightarrow> nat \<Rightarrow> 'h list \<Rightarrow> 'o list" where
  "join_results os n [] = []"
| "join_results os n (t # ts) = outcome os n t # join_results os (Suc n) ts"

section \<open>thread.c and mpthread.h: read/write locks, POSIX branch\<close>

text \<open>
  \<open>rwlock_rdunlock\<close> and \<open>rwlock_wrunlock\<close> each hand the lock to \<open>pthread_rwlock_unlock\<close>
  and return its result (in thread.c as functions, in mpthread.h as macros). The unlock
  of the operating system is a parameter: it takes the lock and gives its return value
  and the lock afterwards. \<open>pthread_rwlock_unlock\<close> below is a model of it to run the two
  against: a lock is free, held by a number of readers, or held by a writer.
\<close>

definition rwlock_rdunlock :: "('l \<Rightarrow> int \<times> 'l) \<Rightarrow> 'l \<Rightarrow> int \<times> 'l" where
  "rwlock_rdunlock unlock rwlock = unlock rwlock"

definition rwlock_wrunlock :: "('l \<Rightarrow> int \<times> 'l) \<Rightarrow> 'l \<Rightarrow> int \<times> 'l" where
  "rwlock_wrunlock unlock rwlock = unlock rwlock"

datatype pthread_rwlock_t = RW_Unlocked | RW_ReadLocked nat | RW_WriteLocked

fun pthread_rwlock_unlock :: "pthread_rwlock_t \<Rightarrow> int \<times> pthread_rwlock_t" where
  "pthread_rwlock_unlock RW_WriteLocked = (0, RW_Unlocked)"
| "pthread_rwlock_unlock (RW_ReadLocked n) =
     (0, if n \<le> 1 then RW_Unlocked else RW_ReadLocked (n - 1))"
| "pthread_rwlock_unlock RW_Unlocked = (1, RW_Unlocked)"

section \<open>thread.c and mpthread.h: the Windows Mutex\<close>

text \<open>
  A \<open>CRITICAL_SECTION\<close> is not initialised (all zero, or deleted), free, held by a
  thread a number of times (it is recursive), or corrupt. The primitives follow the
  Windows API: entering a critical section that was never initialised is a fault;
  entering one held by another thread blocks; leaving one the thread does not hold
  corrupts it, after which entering blocks.
\<close>

datatype critical_section = CS_Uninit | CS_Free | CS_Held nat nat | CS_Corrupt

datatype 'a attempt = Proceeds 'a | Blocks | Faults

definition InitializeCriticalSection :: "critical_section \<Rightarrow> critical_section" where
  "InitializeCriticalSection cs = CS_Free"

fun EnterCriticalSection :: "nat \<Rightarrow> critical_section \<Rightarrow> critical_section attempt" where
  "EnterCriticalSection t CS_Uninit = Faults"
| "EnterCriticalSection t CS_Free = Proceeds (CS_Held t 1)"
| "EnterCriticalSection t (CS_Held owner n) =
     (if owner = t then Proceeds (CS_Held t (Suc n)) else Blocks)"
| "EnterCriticalSection t CS_Corrupt = Blocks"

fun LeaveCriticalSection :: "nat \<Rightarrow> critical_section \<Rightarrow> critical_section" where
  "LeaveCriticalSection t (CS_Held owner n) =
     (if owner = t then (if n \<le> 1 then CS_Free else CS_Held t (n - 1)) else CS_Corrupt)"
| "LeaveCriticalSection t cs = CS_Corrupt"

definition DeleteCriticalSection :: "critical_section \<Rightarrow> critical_section" where
  "DeleteCriticalSection cs = CS_Uninit"

text \<open>
  \<open>InterlockedCompareExchange(&destination, exchange, comperand)\<close>, one atomic step:
  the value it returns (the old one) and the value it leaves.
\<close>

definition InterlockedCompareExchange :: "32 word \<Rightarrow> 32 word \<Rightarrow> 32 word \<Rightarrow> 32 word \<times> 32 word" where
  "InterlockedCompareExchange destination exchange comperand =
     (destination, if destination = comperand then exchange else destination)"

text \<open>
  \<open>typedef struct { CRITICAL_SECTION lock; volatile unsigned char init; } Mutex;\<close>
  The shared state is one \<open>Mutex\<close>, the function-static \<open>initlock\<close> of \<open>mutex_lock\<close>, and
  the number of times \<open>InitializeCriticalSection\<close> has run on the Mutex's lock.
\<close>

record Mutex =
  lock :: critical_section
  init :: "8 word"

record win_state =
  mutex :: Mutex
  initlock :: "32 word"
  init_calls :: nat

definition MUTEX_INITIALIZER :: Mutex where
  "MUTEX_INITIALIZER = \<lparr>lock = CS_Uninit, init = 0\<rparr>"

definition start :: "win_state" where
  "start = \<lparr>mutex = MUTEX_INITIALIZER, initlock = 0, init_calls = 0\<rparr>"

text \<open>\<open>mutex_init\<close>: \<open>InitializeCriticalSection(&mutex->lock); mutex->init = 1; return 0;\<close>\<close>

definition mutex_init :: "win_state \<Rightarrow> int \<times> win_state" where
  "mutex_init s =
     (let s1 = s\<lparr>mutex := (mutex s)\<lparr>lock := InitializeCriticalSection (lock (mutex s))\<rparr>,
                 init_calls := init_calls s + 1\<rparr>;
          s2 = s1\<lparr>mutex := (mutex s1)\<lparr>init := 1\<rparr>\<rparr>
      in (0, s2))"

text \<open>
  \<open>mutex_lock\<close>, statement by statement, for the thread \<open>t\<close> that runs it. Each program
  point is one access to the shared state:
  \<^item> \<open>TestInit\<close>: \<open>if(!mutex->init)\<close>
  \<^item> \<open>SpinInitlock\<close>: \<open>while(InterlockedCompareExchange(&initlock, 1, 0));\<close>, one round
  \<^item> \<open>RetestInit\<close>: the inner \<open>if(!mutex->init)\<close>
  \<^item> \<open>InitCS\<close>: \<open>InitializeCriticalSection(&mutex->lock);\<close>
  \<^item> \<open>SetInit\<close>: \<open>mutex->init = 1;\<close>
  \<^item> \<open>ReleaseInitlock\<close>: \<open>initlock = 0;\<close>
  \<^item> \<open>EnterCS\<close>: \<open>EnterCriticalSection(&mutex->lock); return 0;\<close>
  \<^item> \<open>Returned r\<close>: the call has returned \<open>r\<close>; \<open>Crashed\<close>: the thread has faulted.
  In mpthread.h the two statements of \<open>InitCS\<close> and \<open>SetInit\<close> are the call
  \<open>mutex_init(mutex)\<close>.
\<close>

datatype lock_pc =
  TestInit | SpinInitlock | RetestInit | InitCS | SetInit | ReleaseInitlock | EnterCS
  | Returned int | Crashed

fun lock_step :: "nat \<Rightarrow> lock_pc \<Rightarrow> win_state \<Rightarrow> lock_pc \<times> win_state" where
  "lock_step t TestInit s = (if init (mutex s) = 0 then SpinInitlock else EnterCS, s)"
| "lock_step t SpinInitlock s =
     (let (seen, new) = InterlockedCompareExchange (initlock s) 1 0
      in (if seen \<noteq> 0 then SpinInitlock else RetestInit, s\<lparr>initlock := new\<rparr>))"
| "lock_step t RetestInit s = (if init (mutex s) = 0 then InitCS else ReleaseInitlock, s)"
| "lock_step t InitCS s =
     (SetInit, s\<lparr>mutex := (mutex s)\<lparr>lock := InitializeCriticalSection (lock (mutex s))\<rparr>,
                 init_calls := init_calls s + 1\<rparr>)"
| "lock_step t SetInit s = (ReleaseInitlock, s\<lparr>mutex := (mutex s)\<lparr>init := 1\<rparr>\<rparr>)"
| "lock_step t ReleaseInitlock s = (EnterCS, s\<lparr>initlock := 0\<rparr>)"
| "lock_step t EnterCS s =
     (case EnterCriticalSection t (lock (mutex s)) of
        Proceeds cs \<Rightarrow> (Returned 0, s\<lparr>mutex := (mutex s)\<lparr>lock := cs\<rparr>\<rparr>)
      | Blocks \<Rightarrow> (EnterCS, s)
      | Faults \<Rightarrow> (Crashed, s))"
| "lock_step t (Returned r) s = (Returned r, s)"
| "lock_step t Crashed s = (Crashed, s)"

text \<open>
  Concurrent calls: every thread has its program point (a thread that has not started
  is at \<open>TestInit\<close>), and a schedule names the thread that takes the next step.
\<close>

type_synonym config = "(nat \<Rightarrow> lock_pc) \<times> win_state"

definition sched_step :: "nat \<Rightarrow> config \<Rightarrow> config" where
  "sched_step t c = (let (p, s) = lock_step t (fst c t) (snd c) in ((fst c)(t := p), s))"

fun run :: "nat list \<Rightarrow> config \<Rightarrow> config" where
  "run [] c = c"
| "run (t # ts) c = run ts (sched_step t c)"

text \<open>
  One call of \<open>mutex_lock\<close> by thread \<open>t\<close> with no other thread running: the steps are
  taken until the call returns. The spin loop and \<open>EnterCriticalSection\<close> may wait for
  ever, so the run has fuel, and \<open>None\<close> is a call that has not returned.
\<close>

fun lock_run :: "nat \<Rightarrow> nat \<Rightarrow> lock_pc \<Rightarrow> win_state \<Rightarrow> (int \<times> win_state) option" where
  "lock_run fuel t (Returned r) s = Some (r, s)"
| "lock_run fuel t Crashed s = None"
| "lock_run 0 t p s = None"
| "lock_run (Suc fuel) t p s = (let (p', s') = lock_step t p s in lock_run fuel t p' s')"

definition mutex_lock :: "nat \<Rightarrow> nat \<Rightarrow> win_state \<Rightarrow> (int \<times> win_state) option" where
  "mutex_lock fuel t s = lock_run fuel t TestInit s"

text \<open>\<open>mutex_unlock\<close>: \<open>LeaveCriticalSection(&mutex->lock); return 0;\<close>\<close>

definition mutex_unlock :: "nat \<Rightarrow> win_state \<Rightarrow> int \<times> win_state" where
  "mutex_unlock t s = (0, s\<lparr>mutex := (mutex s)\<lparr>lock := LeaveCriticalSection t (lock (mutex s))\<rparr>\<rparr>)"

text \<open>
  \<open>mutex_end\<close> (thread.c) and \<open>mutex_free\<close> (mpthread.h):
  \<open>DeleteCriticalSection(&mutex->lock); mutex->init = 0; return 0;\<close>
\<close>

definition mutex_end :: "win_state \<Rightarrow> int \<times> win_state" where
  "mutex_end s =
     (let s1 = s\<lparr>mutex := (mutex s)\<lparr>lock := DeleteCriticalSection (lock (mutex s))\<rparr>\<rparr>;
          s2 = s1\<lparr>mutex := (mutex s1)\<lparr>init := 0\<rparr>\<rparr>
      in (0, s2))"

definition mutex_free :: "win_state \<Rightarrow> int \<times> win_state" where
  "mutex_free s =
     (let s1 = s\<lparr>mutex := (mutex s)\<lparr>lock := DeleteCriticalSection (lock (mutex s))\<rparr>\<rparr>;
          s2 = s1\<lparr>mutex := (mutex s1)\<lparr>init := 0\<rparr>\<rparr>
      in (0, s2))"

text \<open>
  The invariant of concurrent \<open>mutex_lock\<close> calls on a statically initialised Mutex.
  A thread is inside the gate from winning the compare-and-swap until it resets
  \<open>initlock\<close>. \<open>gate_ok\<close>: \<open>initlock\<close> is 1 exactly when a thread is inside, and at most
  one is. \<open>data_ok\<close>: the Mutex is untouched and no thread is past \<open>InitCS\<close>; or the
  critical section has been initialised once, the flag is not yet set and the thread
  that did it is at \<open>SetInit\<close>; or the flag is set after exactly one initialisation.
\<close>

fun in_gate :: "lock_pc \<Rightarrow> bool" where
  "in_gate RetestInit = True"
| "in_gate InitCS = True"
| "in_gate SetInit = True"
| "in_gate ReleaseInitlock = True"
| "in_gate p = False"

fun phaseA_pc :: "lock_pc \<Rightarrow> bool" where
  "phaseA_pc TestInit = True"
| "phaseA_pc SpinInitlock = True"
| "phaseA_pc RetestInit = True"
| "phaseA_pc InitCS = True"
| "phaseA_pc p = False"

fun phaseB_pc :: "lock_pc \<Rightarrow> bool" where
  "phaseB_pc TestInit = True"
| "phaseB_pc SpinInitlock = True"
| "phaseB_pc SetInit = True"
| "phaseB_pc p = False"

fun phaseC_pc :: "lock_pc \<Rightarrow> bool" where
  "phaseC_pc InitCS = False"
| "phaseC_pc SetInit = False"
| "phaseC_pc Crashed = False"
| "phaseC_pc (Returned r) = (r = 0)"
| "phaseC_pc p = True"

definition gate_ok :: "config \<Rightarrow> bool" where
  "gate_ok c \<longleftrightarrow>
     (initlock (snd c) = 0 \<and> (\<forall>t. \<not> in_gate (fst c t)))
   \<or> (initlock (snd c) = 1 \<and> (\<exists>h. in_gate (fst c h) \<and> (\<forall>t. in_gate (fst c t) \<longrightarrow> t = h)))"

definition data_ok :: "config \<Rightarrow> bool" where
  "data_ok c \<longleftrightarrow>
     (init (mutex (snd c)) = 0 \<and> init_calls (snd c) = 0 \<and> lock (mutex (snd c)) = CS_Uninit
        \<and> (\<forall>t. phaseA_pc (fst c t)))
   \<or> (init (mutex (snd c)) = 0 \<and> init_calls (snd c) = 1 \<and> lock (mutex (snd c)) \<noteq> CS_Uninit
        \<and> (\<exists>h. fst c h = SetInit) \<and> (\<forall>t. phaseB_pc (fst c t)))
   \<or> (init (mutex (snd c)) = 1 \<and> init_calls (snd c) = 1 \<and> lock (mutex (snd c)) \<noteq> CS_Uninit
        \<and> (\<forall>t. phaseC_pc (fst c t)))"

definition lock_inv :: "config \<Rightarrow> bool" where
  "lock_inv c \<longleftrightarrow> gate_ok c \<and> data_ok c"

section \<open>Arithmetic of the timestamp conversions\<close>

lemma sdiv_nonneg_int: "0 \<le> (a::int) \<Longrightarrow> 0 < b \<Longrightarrow> a sdiv b = a div b"
  by (simp add: signed_divide_int_def sgn_if)

lemma us_of_timespec_int:
  "us_of_timespec ts = word_of_int (sint (tv_sec ts) * 1000000 + (sint (tv_nsec ts) sdiv 1000))"
  by (simp add: us_of_timespec_def MICROSECONDS_def c_sdiv_def)

lemma ms_of_timespec_int:
  "ms_of_timespec ts = word_of_int (sint (tv_sec ts) * 1000 + (sint (tv_nsec ts) sdiv 1000000))"
  by (simp add: ms_of_timespec_def MILLISECONDS_def c_sdiv_def)

text \<open>Below \<open>2 ^ 64\<close> the 64-bit timestamps are the exact counts.\<close>

lemma us_exact:
  assumes "0 \<le> sint (tv_sec ts)" "0 \<le> sint (tv_nsec ts)"
    and "sint (tv_sec ts) * 1000000 + sint (tv_nsec ts) div 1000 < 2 ^ 64"
  shows "uint (us_of_timespec ts) = sint (tv_sec ts) * 1000000 + sint (tv_nsec ts) div 1000"
proof -
  let ?k = "sint (tv_sec ts) * 1000000 + sint (tv_nsec ts) div 1000"
  have "0 \<le> ?k" using assms(1,2) by (simp add: pos_imp_zdiv_nonneg_iff)
  have "sint (tv_nsec ts) sdiv 1000 = sint (tv_nsec ts) div 1000"
    using assms(2) by (rule sdiv_nonneg_int) simp
  then have "us_of_timespec ts = word_of_int ?k"
    by (simp only: us_of_timespec_int)
  then have "uint (us_of_timespec ts) = ?k mod 2 ^ LENGTH(64)"
    by (simp only: uint_word_of_int)
  with \<open>0 \<le> ?k\<close> assms(3) show ?thesis by simp
qed

lemma ms_exact:
  assumes "0 \<le> sint (tv_sec ts)" "0 \<le> sint (tv_nsec ts)"
    and "sint (tv_sec ts) * 1000 + sint (tv_nsec ts) div 1000000 < 2 ^ 64"
  shows "uint (ms_of_timespec ts) = sint (tv_sec ts) * 1000 + sint (tv_nsec ts) div 1000000"
proof -
  let ?k = "sint (tv_sec ts) * 1000 + sint (tv_nsec ts) div 1000000"
  have "0 \<le> ?k" using assms(1,2) by (simp add: pos_imp_zdiv_nonneg_iff)
  have "sint (tv_nsec ts) sdiv 1000000 = sint (tv_nsec ts) div 1000000"
    using assms(2) by (rule sdiv_nonneg_int) simp
  then have "ms_of_timespec ts = word_of_int ?k"
    by (simp only: ms_of_timespec_int)
  then have "uint (ms_of_timespec ts) = ?k mod 2 ^ LENGTH(64)"
    by (simp only: uint_word_of_int)
  with \<open>0 \<le> ?k\<close> assms(3) show ?thesis by simp
qed

lemma ms_us_int:
  assumes "0 \<le> (n::int)"
  shows "(s * 1000000 + n div 1000) div 1000 = s * 1000 + n div 1000000"
proof -
  have "(s * 1000000 + n div 1000) div 1000 = (n div 1000 + (s * 1000) * 1000) div 1000"
    by (simp add: algebra_simps)
  also have "\<dots> = n div 1000 div 1000 + s * 1000" by simp
  also have "n div 1000 div 1000 = n div 1000000" by (simp add: zdiv_zmult2_eq)
  finally show ?thesis by simp
qed

lemma div_1000_le: "0 \<le> (x::int) \<Longrightarrow> x div 1000 \<le> x"
  using zdiv_mono2 [of x 1 1000] by simp

lemma mp_ms_of_timespec_sint:
  fixes ts :: "('t::len word, 32 word) timespec"
  shows "sint (mp_ms_of_timespec ts)
    = signed_take_bit 31 (sint (tv_sec ts) * 1000 + sint (tv_nsec ts) sdiv 1000000)"
proof -
  have "mp_ms_of_timespec ts
      = (word_of_int (sint (tv_sec ts) * 1000 + sint (tv_nsec ts) sdiv 1000000) :: 32 word)"
    by (simp add: mp_ms_of_timespec_def MILLISECONDS_def c_sdiv_def)
  then have "sint (mp_ms_of_timespec ts) = signed_take_bit (LENGTH(32) - 1)
      (sint (tv_sec ts) * 1000 + sint (tv_nsec ts) sdiv 1000000)"
    by (simp only: sint_sbintrunc')
  then show ?thesis by simp
qed

lemma mp_us_of_timespec_sint:
  fixes ts :: "('t::len word, 32 word) timespec"
  shows "sint (mp_us_of_timespec ts)
    = signed_take_bit 31 (sint (tv_sec ts) * 1000000 + sint (tv_nsec ts) sdiv 1000)"
proof -
  have "mp_us_of_timespec ts
      = (word_of_int (sint (tv_sec ts) * 1000000 + sint (tv_nsec ts) sdiv 1000) :: 32 word)"
    by (simp add: mp_us_of_timespec_def MICROSECONDS_def c_sdiv_def)
  then have "sint (mp_us_of_timespec ts) = signed_take_bit (LENGTH(32) - 1)
      (sint (tv_sec ts) * 1000000 + sint (tv_nsec ts) sdiv 1000)"
    by (simp only: sint_sbintrunc')
  then show ?thesis by simp
qed

lemma signed_wrap_31:
  assumes "2 ^ 31 \<le> (m::int)" "m < 2 ^ 32"
  shows "signed_take_bit 31 m = m - 2 ^ 32"
proof -
  have "(m + 2 ^ 31) mod 2 ^ 32 = m - 2 ^ 31"
    using assms by (intro int_mod_pos_eq [where q = 1]) simp_all
  then show ?thesis
    by (simp add: signed_take_bit_eq_take_bit_shift take_bit_eq_mod)
qed

lemma signed_keep_31:
  assumes "0 \<le> (m::int)" "m < 2 ^ 31"
  shows "signed_take_bit 31 m = m"
  using assms by (intro signed_take_bit_int_eq_self) simp_all

section \<open>Elapsed time\<close>

text \<open>
  C6: for every start timestamp \<open>s\<close>, \<open>millielapsed(s)\<close> is \<open>milliseconds() - s\<close> and
  \<open>microelapsed(s)\<close> is \<open>microseconds() - s\<close>: the difference of the current timestamp
  and the start in the arithmetic of the timestamp type, with no clamping or other
  adjustment. In \<open>time.c\<close> (\<open>uint64_t\<close>) that is the integer difference when the start is
  not after the current timestamp and the difference plus \<open>2 ^ 64\<close> otherwise; in
  \<open>mptime.h\<close> (\<open>long\<close>) it is the integer difference read back as a signed \<open>long\<close>.
\<close>

theorem elapsed_is_difference:
  fixes clk :: "(64 word, 64 word) posix_clock" and s :: "64 word"
    and nclk :: "('t::len word, 'l::len word) posix_clock" and ns :: "'l word"
  shows "uint (millielapsed clk s) = (uint (milliseconds clk) - uint s) mod 2 ^ 64
    \<and> uint (microelapsed clk s) = (uint (microseconds clk) - uint s) mod 2 ^ 64
    \<and> uint (millielapsed clk s) =
          (if uint s \<le> uint (milliseconds clk) then uint (milliseconds clk) - uint s
           else uint (milliseconds clk) - uint s + 2 ^ 64)
    \<and> uint (microelapsed clk s) =
          (if uint s \<le> uint (microseconds clk) then uint (microseconds clk) - uint s
           else uint (microseconds clk) - uint s + 2 ^ 64)
    \<and> sint (mp_millielapsed nclk ns)
          = signed_take_bit (LENGTH('l) - 1) (sint (mp_milliseconds nclk) - sint ns)
    \<and> sint (mp_microelapsed nclk ns)
          = signed_take_bit (LENGTH('l) - 1) (sint (mp_microseconds nclk) - sint ns)"
proof -
  have a: "uint (millielapsed clk s) = (uint (milliseconds clk) - uint s) mod 2 ^ 64"
    by (simp add: millielapsed_def uint_word_ariths)
  have b: "uint (microelapsed clk s) = (uint (microseconds clk) - uint s) mod 2 ^ 64"
    by (simp add: microelapsed_def uint_word_ariths)
  have c: "uint (millielapsed clk s) =
          (if uint s \<le> uint (milliseconds clk) then uint (milliseconds clk) - uint s
           else uint (milliseconds clk) - uint s + 2 ^ 64)"
    unfolding millielapsed_def by (subst uint_sub_if') simp
  have d: "uint (microelapsed clk s) =
          (if uint s \<le> uint (microseconds clk) then uint (microseconds clk) - uint s
           else uint (microseconds clk) - uint s + 2 ^ 64)"
    unfolding microelapsed_def by (subst uint_sub_if') simp
  have e: "sint (mp_millielapsed nclk ns)
          = signed_take_bit (LENGTH('l) - 1) (sint (mp_milliseconds nclk) - sint ns)"
    by (simp add: mp_millielapsed_def sint_word_ariths)
  have f: "sint (mp_microelapsed nclk ns)
          = signed_take_bit (LENGTH('l) - 1) (sint (mp_microseconds nclk) - sint ns)"
    by (simp add: mp_microelapsed_def sint_word_ariths)
  from a b c d e f show ?thesis by (intro conjI)
qed

text \<open>
  The theorem at a clock that reads 5.250 s and the start timestamps 5000 ms (before)
  and 6000 ms (after, where the unsigned difference wraps).
\<close>

theorem elapsed_is_difference_witness:
  "millielapsed \<lparr>has_CLOCK_MONOTONIC = True,
                 clock_monotonic = Some \<lparr>tv_sec = 5, tv_nsec = 250000000\<rparr>,
                 clock_realtime = None, uninit_ts = \<lparr>tv_sec = 0, tv_nsec = 0\<rparr>\<rparr> 5000 = 250
   \<and> uint (millielapsed \<lparr>has_CLOCK_MONOTONIC = True,
                 clock_monotonic = Some \<lparr>tv_sec = 5, tv_nsec = 250000000\<rparr>,
                 clock_realtime = None, uninit_ts = \<lparr>tv_sec = 0, tv_nsec = 0\<rparr>\<rparr> 6000)
       = 2 ^ 64 - 750"
proof -
  let ?clk = "\<lparr>has_CLOCK_MONOTONIC = True,
                 clock_monotonic = Some \<lparr>tv_sec = 5, tv_nsec = 250000000\<rparr>,
                 clock_realtime = None, uninit_ts = \<lparr>tv_sec = 0, tv_nsec = 0\<rparr>\<rparr>
              :: (64 word, 64 word) posix_clock"
  have now: "milliseconds ?clk = 5250"
    by (simp add: milliseconds_def ts_gettime_def ms_of_timespec_def MILLISECONDS_def c_sdiv_def)
  have "uint (millielapsed ?clk 5000) = 250"
    using elapsed_is_difference [of ?clk 5000 ?clk 0] by (simp add: now)
  then have "uint (millielapsed ?clk 5000) = uint (250 :: 64 word)" by simp
  then have x: "millielapsed ?clk 5000 = 250" by (rule word_uint_eqI)
  have y: "uint (millielapsed ?clk 6000) = 2 ^ 64 - 750"
    using elapsed_is_difference [of ?clk 6000 ?clk 0] by (simp add: now)
  from x y show ?thesis by (intro conjI)
qed

section \<open>Range of the counters\<close>

lemma mp_ms_narrow:
  fixes ts :: "('t::len word, 32 word) timespec"
  assumes "0 \<le> sint (tv_nsec ts)"
  shows "sint (mp_ms_of_timespec ts) = signed_take_bit 31 (exact_ms ts)"
  using assms by (simp add: mp_ms_of_timespec_sint exact_ms_def sdiv_nonneg_int)

lemma mp_us_narrow:
  fixes ts :: "('t::len word, 32 word) timespec"
  assumes "0 \<le> sint (tv_nsec ts)"
  shows "sint (mp_us_of_timespec ts) = signed_take_bit 31 (exact_us ts)"
  using assms by (simp add: mp_us_of_timespec_sint exact_us_def sdiv_nonneg_int)

lemma wide_bounds:
  fixes ws :: timespec64
  assumes "0 \<le> sint (tv_sec ws)" "sint (tv_sec ws) \<le> 584942 * 365 * 86400"
    "0 \<le> sint (tv_nsec ws)" "sint (tv_nsec ws) < 1000000000"
  shows "exact_us ws < 2 ^ 64" "exact_ms ws < 2 ^ 64"
proof -
  have "sint (tv_nsec ws) div 1000 \<le> sint (tv_nsec ws)"
    using assms(3) by (rule div_1000_le)
  then show "exact_us ws < 2 ^ 64"
    using assms by (simp add: exact_us_def)
  have "sint (tv_nsec ws) div 1000000 \<le> sint (tv_nsec ws) div 1"
    using assms(3) by (intro zdiv_mono2) simp_all
  then show "exact_ms ws < 2 ^ 64"
    using assms by (simp add: exact_ms_def)
qed

lemma scaled_quotient_narrow:
  fixes count f scale :: "64 word"
  assumes "0 < sint f" "0 \<le> sint count" "0 \<le> sint scale" "sint count * sint scale < 2 ^ 63"
  shows "c_sdiv_opt (count * scale) f = Some (c_sdiv (count * scale) f)"
    and "sint (ucast (c_sdiv (count * scale) f) :: 32 word)
          = signed_take_bit 31 (sint count * sint scale div sint f)"
proof -
  have nonneg: "0 \<le> sint count * sint scale" using assms(2,3) by simp
  have "sint (count * scale) = signed_take_bit (LENGTH(64) - 1) (sint count * sint scale)"
    by (simp add: sint_word_ariths)
  also have "\<dots> = sint count * sint scale"
    using nonneg assms(4) by (intro signed_take_bit_int_eq_self) simp_all
  finally have prod: "sint (count * scale) = sint count * sint scale" .
  have "f \<noteq> 0" using assms(1) by auto
  moreover have "sint f \<noteq> - 1" using assms(1) by simp
  ultimately show "c_sdiv_opt (count * scale) f = Some (c_sdiv (count * scale) f)"
    by (simp add: c_sdiv_opt_def)
  have q: "sint (count * scale) sdiv sint f = sint count * sint scale div sint f"
    unfolding prod using nonneg assms(1) by (rule sdiv_nonneg_int)
  have down: "is_down (ucast :: 64 word \<Rightarrow> 32 word)" by (simp add: is_down)
  have "(ucast (c_sdiv (count * scale) f) :: 32 word)
      = word_of_int (sint count * sint scale div sint f)"
    unfolding c_sdiv_def q using down by (rule ucast_down_wi)
  then have "sint (ucast (c_sdiv (count * scale) f) :: 32 word)
      = signed_take_bit (LENGTH(32) - 1) (sint count * sint scale div sint f)"
    by (simp only: sint_sbintrunc')
  then show "sint (ucast (c_sdiv (count * scale) f) :: 32 word)
          = signed_take_bit 31 (sint count * sint scale div sint f)"
    by simp
qed

lemma mp_win_milliseconds_narrow:
  assumes "0 < sint (win_frequency w)"
    and "0 \<le> sint (performance_counter w)" "sint (performance_counter w) * 1000 < 2 ^ 63"
  shows "\<exists>r. fst (mp_win_milliseconds w) = Some r \<and> sint r = signed_take_bit 31 (win_exact 1000 w)"
proof -
  have k: "sint (1000 :: 64 word) = 1000" by simp
  note n = scaled_quotient_narrow [of "win_frequency w" "performance_counter w" 1000, unfolded k]
  have run: "fst (mp_win_milliseconds w)
      = map_option ucast (c_sdiv_opt (performance_counter w * 1000) (win_frequency w))"
    by (simp add: mp_win_milliseconds_def MILLISECONDS_def Let_def win_frequency_def)
  show ?thesis
    unfolding run win_exact_def using n assms by simp
qed

lemma mp_win_microseconds_narrow:
  assumes "0 < sint (win_frequency w)"
    and "0 \<le> sint (performance_counter w)" "sint (performance_counter w) * 1000000 < 2 ^ 63"
  shows "\<exists>r. fst (mp_win_microseconds w) = Some r \<and> sint r = signed_take_bit 31 (win_exact 1000000 w)"
proof -
  have k: "sint (1000000 :: 64 word) = 1000000" by simp
  note n = scaled_quotient_narrow [of "win_frequency w" "performance_counter w" 1000000, unfolded k]
  have run: "fst (mp_win_microseconds w)
      = map_option ucast (c_sdiv_opt (performance_counter w * 1000000) (win_frequency w))"
    by (simp add: mp_win_microseconds_def MICROSECONDS_def Let_def win_frequency_def)
  show ?thesis
    unfolding run win_exact_def using n assms by simp
qed

lemma win_exact_nonneg:
  "0 < sint (win_frequency w) \<Longrightarrow> 0 \<le> sint (performance_counter w) \<Longrightarrow> 0 \<le> per_second
   \<Longrightarrow> 0 \<le> win_exact per_second w"
  by (simp add: win_exact_def pos_imp_zdiv_nonneg_iff)

text \<open>
  C8: in \<open>mptime.h\<close>, \<open>milliseconds()\<close> and \<open>microseconds()\<close> return a signed \<open>long\<close>.
  With a 4-byte \<open>long\<close> the returned value is the exact count as long as the count is
  below \<open>2 ^ 31\<close>, and from \<open>2 ^ 31\<close> on it has wrapped (the value is the count minus
  \<open>2 ^ 32\<close>, a negative number), on the POSIX branch and on the Windows branch alike.
  \<open>2 ^ 31\<close> ms lie between 24.855 and 24.856 days, \<open>2 ^ 31\<close> us between 35.791 and
  35.792 minutes. The \<open>uint64_t\<close> timestamps of \<open>time.c\<close> are the exact counts for every
  clock reading up to 584942 years.
\<close>

theorem counter_ranges:
  fixes ts1 ts2 ts3 ts4 :: "('t::len word, 32 word) timespec" and ws :: timespec64
  shows
    "(0 \<le> sint (tv_nsec ts1) \<and> 0 \<le> exact_ms ts1 \<and> exact_ms ts1 < long4_range
        \<longrightarrow> sint (mp_ms_of_timespec ts1) = exact_ms ts1)
   \<and> (0 \<le> sint (tv_nsec ts2) \<and> long4_range \<le> exact_ms ts2 \<and> exact_ms ts2 < 2 * long4_range
        \<longrightarrow> sint (mp_ms_of_timespec ts2) = exact_ms ts2 - 2 * long4_range)
   \<and> (0 \<le> sint (tv_nsec ts3) \<and> 0 \<le> exact_us ts3 \<and> exact_us ts3 < long4_range
        \<longrightarrow> sint (mp_us_of_timespec ts3) = exact_us ts3)
   \<and> (0 \<le> sint (tv_nsec ts4) \<and> long4_range \<le> exact_us ts4 \<and> exact_us ts4 < 2 * long4_range
        \<longrightarrow> sint (mp_us_of_timespec ts4) = exact_us ts4 - 2 * long4_range)
   \<and> (0 < sint (win_frequency w1) \<and> 0 \<le> sint (performance_counter w1)
        \<and> sint (performance_counter w1) * 1000 < 2 ^ 63 \<and> win_exact 1000 w1 < long4_range
        \<longrightarrow> (\<exists>r. fst (mp_win_milliseconds w1) = Some r \<and> sint r = win_exact 1000 w1))
   \<and> (0 < sint (win_frequency w2) \<and> 0 \<le> sint (performance_counter w2)
        \<and> sint (performance_counter w2) * 1000 < 2 ^ 63
        \<and> long4_range \<le> win_exact 1000 w2 \<and> win_exact 1000 w2 < 2 * long4_range
        \<longrightarrow> (\<exists>r. fst (mp_win_milliseconds w2) = Some r
              \<and> sint r = win_exact 1000 w2 - 2 * long4_range))
   \<and> (0 < sint (win_frequency w3) \<and> 0 \<le> sint (performance_counter w3)
        \<and> sint (performance_counter w3) * 1000000 < 2 ^ 63 \<and> win_exact 1000000 w3 < long4_range
        \<longrightarrow> (\<exists>r. fst (mp_win_microseconds w3) = Some r \<and> sint r = win_exact 1000000 w3))
   \<and> (0 < sint (win_frequency w4) \<and> 0 \<le> sint (performance_counter w4)
        \<and> sint (performance_counter w4) * 1000000 < 2 ^ 63
        \<and> long4_range \<le> win_exact 1000000 w4 \<and> win_exact 1000000 w4 < 2 * long4_range
        \<longrightarrow> (\<exists>r. fst (mp_win_microseconds w4) = Some r
              \<and> sint r = win_exact 1000000 w4 - 2 * long4_range))
   \<and> long4_range = 2 ^ 31
   \<and> 24855 * 86400000 \<le> long4_range * 1000 \<and> long4_range * 1000 < 24856 * 86400000
   \<and> 35791 * 60000000 \<le> long4_range * 1000 \<and> long4_range * 1000 < 35792 * 60000000
   \<and> (0 \<le> sint (tv_sec ws) \<and> sint (tv_sec ws) \<le> 584942 * 365 * 86400
        \<and> 0 \<le> sint (tv_nsec ws) \<and> sint (tv_nsec ws) < 1000000000
        \<longrightarrow> uint (ms_of_timespec ws) = exact_ms ws \<and> uint (us_of_timespec ws) = exact_us ws)"
proof -
  have r: "long4_range = 2 ^ 31" by (simp add: long4_range_def)
  have a: "sint (mp_ms_of_timespec ts1) = exact_ms ts1"
    if "0 \<le> sint (tv_nsec ts1)" "0 \<le> exact_ms ts1" "exact_ms ts1 < long4_range"
    using that by (simp add: mp_ms_narrow signed_keep_31 r)
  have b: "sint (mp_ms_of_timespec ts2) = exact_ms ts2 - 2 * long4_range"
    if "0 \<le> sint (tv_nsec ts2)" "long4_range \<le> exact_ms ts2" "exact_ms ts2 < 2 * long4_range"
    using that by (simp add: mp_ms_narrow signed_wrap_31 r)
  have c: "sint (mp_us_of_timespec ts3) = exact_us ts3"
    if "0 \<le> sint (tv_nsec ts3)" "0 \<le> exact_us ts3" "exact_us ts3 < long4_range"
    using that by (simp add: mp_us_narrow signed_keep_31 r)
  have d: "sint (mp_us_of_timespec ts4) = exact_us ts4 - 2 * long4_range"
    if "0 \<le> sint (tv_nsec ts4)" "long4_range \<le> exact_us ts4" "exact_us ts4 < 2 * long4_range"
    using that by (simp add: mp_us_narrow signed_wrap_31 r)
  have wa: "\<exists>r. fst (mp_win_milliseconds w1) = Some r \<and> sint r = win_exact 1000 w1"
    if "0 < sint (win_frequency w1)" "0 \<le> sint (performance_counter w1)"
      "sint (performance_counter w1) * 1000 < 2 ^ 63" "win_exact 1000 w1 < long4_range"
  proof -
    have "0 \<le> win_exact 1000 w1" using that(1,2) by (intro win_exact_nonneg) simp_all
    with that(4) have "signed_take_bit 31 (win_exact 1000 w1) = win_exact 1000 w1"
      by (simp add: signed_keep_31 r)
    with mp_win_milliseconds_narrow [OF that(1,2,3)] show ?thesis by simp
  qed
  have wb: "\<exists>r. fst (mp_win_milliseconds w2) = Some r
        \<and> sint r = win_exact 1000 w2 - 2 * long4_range"
    if "0 < sint (win_frequency w2)" "0 \<le> sint (performance_counter w2)"
      "sint (performance_counter w2) * 1000 < 2 ^ 63"
      "long4_range \<le> win_exact 1000 w2" "win_exact 1000 w2 < 2 * long4_range"
  proof -
    from that(4,5) have "signed_take_bit 31 (win_exact 1000 w2) = win_exact 1000 w2 - 2 * long4_range"
      by (simp add: signed_wrap_31 r)
    with mp_win_milliseconds_narrow [OF that(1,2,3)] show ?thesis by simp
  qed
  have wc: "\<exists>r. fst (mp_win_microseconds w3) = Some r \<and> sint r = win_exact 1000000 w3"
    if "0 < sint (win_frequency w3)" "0 \<le> sint (performance_counter w3)"
      "sint (performance_counter w3) * 1000000 < 2 ^ 63" "win_exact 1000000 w3 < long4_range"
  proof -
    have "0 \<le> win_exact 1000000 w3" using that(1,2) by (intro win_exact_nonneg) simp_all
    with that(4) have "signed_take_bit 31 (win_exact 1000000 w3) = win_exact 1000000 w3"
      by (simp add: signed_keep_31 r)
    with mp_win_microseconds_narrow [OF that(1,2,3)] show ?thesis by simp
  qed
  have wd: "\<exists>r. fst (mp_win_microseconds w4) = Some r
        \<and> sint r = win_exact 1000000 w4 - 2 * long4_range"
    if "0 < sint (win_frequency w4)" "0 \<le> sint (performance_counter w4)"
      "sint (performance_counter w4) * 1000000 < 2 ^ 63"
      "long4_range \<le> win_exact 1000000 w4" "win_exact 1000000 w4 < 2 * long4_range"
  proof -
    from that(4,5)
    have "signed_take_bit 31 (win_exact 1000000 w4) = win_exact 1000000 w4 - 2 * long4_range"
      by (simp add: signed_wrap_31 r)
    with mp_win_microseconds_narrow [OF that(1,2,3)] show ?thesis by simp
  qed
  have e: "uint (ms_of_timespec ws) = exact_ms ws \<and> uint (us_of_timespec ws) = exact_us ws"
    if "0 \<le> sint (tv_sec ws)" "sint (tv_sec ws) \<le> 584942 * 365 * 86400"
      "0 \<le> sint (tv_nsec ws)" "sint (tv_nsec ws) < 1000000000"
    using wide_bounds [OF that] that ms_exact [of ws] us_exact [of ws]
    by (simp add: exact_ms_def exact_us_def)
  have f: "24855 * 86400000 \<le> long4_range * 1000" "long4_range * 1000 < 24856 * 86400000"
    by (simp_all add: r)
  have g: "35791 * 60000000 \<le> long4_range * 1000" "long4_range * 1000 < 35792 * 60000000"
    by (simp_all add: r)
  show ?thesis
  proof (intro conjI impI; (elim conjE)?)
    show "long4_range = 2 ^ 31" by (rule r)
  qed (rule a b c d wa wb wc wd e [THEN conjunct1] e [THEN conjunct2] f g; assumption)+
qed

text \<open>
  The theorem at clock readings just below and at the wrap: 86400.005 s, and the first
  millisecond and microsecond that a 4-byte \<open>long\<close> cannot hold; on Windows with a
  10 MHz counter.
\<close>

theorem counter_ranges_witness:
  "sint (mp_ms_of_timespec (\<lparr>tv_sec = 86400, tv_nsec = 5000000\<rparr> :: (32 word, 32 word) timespec))
      = 86400005
   \<and> sint (mp_ms_of_timespec (\<lparr>tv_sec = 2147483, tv_nsec = 648000000\<rparr> :: (32 word, 32 word) timespec))
      = - 2147483648
   \<and> sint (mp_us_of_timespec (\<lparr>tv_sec = 2147, tv_nsec = 483647000\<rparr> :: (32 word, 32 word) timespec))
      = 2147483647
   \<and> sint (mp_us_of_timespec (\<lparr>tv_sec = 2147, tv_nsec = 483648000\<rparr> :: (32 word, 32 word) timespec))
      = - 2147483648
   \<and> map_option sint (fst (mp_win_milliseconds
        \<lparr>Freq_mptime = 0, performance_frequency = 10000000, performance_counter = 21474836470000\<rparr>))
      = Some 2147483647
   \<and> map_option sint (fst (mp_win_milliseconds
        \<lparr>Freq_mptime = 0, performance_frequency = 10000000, performance_counter = 21474836480000\<rparr>))
      = Some (- 2147483648)
   \<and> uint (us_of_timespec \<lparr>tv_sec = 18446730912000, tv_nsec = 999999999\<rparr>)
      = 18446730912000999999"
proof -
  let ?below = "\<lparr>Freq_mptime = 0, performance_frequency = 10000000,
      performance_counter = 21474836470000\<rparr>"
  let ?at = "\<lparr>Freq_mptime = 0, performance_frequency = 10000000,
      performance_counter = 21474836480000\<rparr>"
  note T = counter_ranges [of
      "\<lparr>tv_sec = 86400, tv_nsec = 5000000\<rparr> :: (32 word, 32 word) timespec"
      "\<lparr>tv_sec = 2147483, tv_nsec = 648000000\<rparr>"
      "\<lparr>tv_sec = 2147, tv_nsec = 483647000\<rparr>"
      "\<lparr>tv_sec = 2147, tv_nsec = 483648000\<rparr>"
      ?below ?at ?below ?below
      "\<lparr>tv_sec = 18446730912000, tv_nsec = 999999999\<rparr>"]
  have eb: "win_exact 1000 ?below = 2147483647" and ea: "win_exact 1000 ?at = 2147483648"
    by (simp_all add: win_exact_def win_frequency_def)
  have fb: "sint (win_frequency ?below) = 10000000" and fa: "sint (win_frequency ?at) = 10000000"
    by (simp_all add: win_frequency_def)
  from T have "\<exists>r. fst (mp_win_milliseconds ?below) = Some r \<and> sint r = win_exact 1000 ?below"
    by (simp add: eb fb long4_range_def)
  then have wb: "map_option sint (fst (mp_win_milliseconds ?below)) = Some 2147483647"
    by (auto simp: eb)
  from T have "\<exists>r. fst (mp_win_milliseconds ?at) = Some r
      \<and> sint r = win_exact 1000 ?at - 2 * long4_range"
    by (simp add: ea fa long4_range_def)
  then have wa: "map_option sint (fst (mp_win_milliseconds ?at)) = Some (- 2147483648)"
    by (auto simp: ea long4_range_def)
  from T have "sint (mp_ms_of_timespec (\<lparr>tv_sec = 86400, tv_nsec = 5000000\<rparr> :: (32 word, 32 word) timespec))
      = 86400005
   \<and> sint (mp_ms_of_timespec (\<lparr>tv_sec = 2147483, tv_nsec = 648000000\<rparr> :: (32 word, 32 word) timespec))
      = - 2147483648
   \<and> sint (mp_us_of_timespec (\<lparr>tv_sec = 2147, tv_nsec = 483647000\<rparr> :: (32 word, 32 word) timespec))
      = 2147483647
   \<and> sint (mp_us_of_timespec (\<lparr>tv_sec = 2147, tv_nsec = 483648000\<rparr> :: (32 word, 32 word) timespec))
      = - 2147483648
   \<and> uint (us_of_timespec \<lparr>tv_sec = 18446730912000, tv_nsec = 999999999\<rparr>)
      = 18446730912000999999"
    by (simp add: exact_ms_def exact_us_def long4_range_def)
  with wb wa show ?thesis by simp
qed

section \<open>Millisecond and microsecond timestamps of one \<open>timespec\<close>\<close>

lemma ms_us_consistent_wide:
  fixes ts :: timespec64
  assumes "0 \<le> sint (tv_sec ts)" "0 \<le> sint (tv_nsec ts)" "sint (tv_nsec ts) < 1000000000"
    and "sint (tv_sec ts) * 1000000 + sint (tv_nsec ts) div 1000 < 2 ^ 64"
  shows "ms_of_timespec ts = us_of_timespec ts div 1000"
proof -
  let ?s = "sint (tv_sec ts)" and ?n = "sint (tv_nsec ts)"
  have us: "uint (us_of_timespec ts) = ?s * 1000000 + ?n div 1000"
    using assms by (intro us_exact) auto
  have "?s * 1000 + ?n div 1000000 = (?s * 1000000 + ?n div 1000) div 1000"
    using assms(2) by (simp add: ms_us_int)
  also have "\<dots> \<le> ?s * 1000000 + ?n div 1000" using assms(1,2)
    by (intro div_1000_le) (simp_all add: pos_imp_zdiv_nonneg_iff)
  finally have "?s * 1000 + ?n div 1000000 < 2 ^ 64" using assms(4) by linarith
  then have ms: "uint (ms_of_timespec ts) = ?s * 1000 + ?n div 1000000"
    using assms by (intro ms_exact) auto
  have "uint (us_of_timespec ts div 1000) = uint (us_of_timespec ts) div 1000"
    by (simp add: uint_div)
  with us ms assms(2) have "uint (ms_of_timespec ts) = uint (us_of_timespec ts div 1000)"
    by (simp add: ms_us_int)
  then show ?thesis by (rule word_uint_eqI)
qed

lemma ms_us_consistent_narrow:
  fixes ts :: "('t::len word, 32 word) timespec"
  assumes "0 \<le> sint (tv_sec ts)" "0 \<le> sint (tv_nsec ts)" "exact_us ts < 2 ^ 31"
  shows "mp_ms_of_timespec ts = c_sdiv (mp_us_of_timespec ts) 1000"
proof -
  have us0: "0 \<le> exact_us ts"
    using assms(1,2) by (simp add: exact_us_def pos_imp_zdiv_nonneg_iff)
  have ms0: "0 \<le> exact_ms ts"
    using assms(1,2) by (simp add: exact_ms_def pos_imp_zdiv_nonneg_iff)
  have rel: "exact_us ts div 1000 = exact_ms ts"
    using assms(2) by (simp add: exact_us_def exact_ms_def ms_us_int)
  have "exact_ms ts \<le> exact_us ts"
    using div_1000_le [OF us0] by (simp add: rel)
  with assms(3) have ms1: "exact_ms ts < 2 ^ 31" by simp
  have us: "sint (mp_us_of_timespec ts) = exact_us ts"
    using assms(2,3) us0 by (simp add: mp_us_narrow signed_keep_31)
  have ms: "sint (mp_ms_of_timespec ts) = exact_ms ts"
    using assms(2) ms0 ms1 by (simp add: mp_ms_narrow signed_keep_31)
  have k: "sint (1000 :: 32 word) = 1000" by simp
  have "sint (mp_us_of_timespec ts) sdiv sint (1000 :: 32 word) = exact_ms ts"
    unfolding us k using us0 by (simp add: sdiv_nonneg_int rel)
  then have "c_sdiv (mp_us_of_timespec ts) 1000 = word_of_int (exact_ms ts)"
    by (simp only: c_sdiv_def)
  also have "\<dots> = word_of_int (sint (mp_ms_of_timespec ts))" by (simp only: ms)
  also have "\<dots> = mp_ms_of_timespec ts" by simp
  finally show ?thesis by simp
qed

text \<open>
  C9, as stated: for every \<open>timespec\<close> with \<open>tv_sec \<ge> 0\<close> and \<open>0 \<le> tv_nsec < 10^9\<close> the
  millisecond timestamp equals the microsecond timestamp divided by 1000. It fails where
  the microsecond count no longer fits the return type: in \<open>time.c\<close> at
  \<open>tv_sec = 18446744073710\<close> (the product with 1000000 exceeds \<open>2 ^ 64\<close>), and in
  \<open>mptime.h\<close> with a 4-byte \<open>long\<close> already at \<open>tv_sec = 2148\<close> seconds. Both inputs
  satisfy the hypotheses of the claim.
\<close>

theorem ms_us_consistent_counterexample:
  "0 \<le> sint (tv_sec (\<lparr>tv_sec = 18446744073710, tv_nsec = 0\<rparr> :: timespec64))
   \<and> 0 \<le> sint (tv_nsec (\<lparr>tv_sec = 18446744073710, tv_nsec = 0\<rparr> :: timespec64))
   \<and> sint (tv_nsec (\<lparr>tv_sec = 18446744073710, tv_nsec = 0\<rparr> :: timespec64)) < 1000000000
   \<and> ms_of_timespec \<lparr>tv_sec = 18446744073710, tv_nsec = 0\<rparr> = 18446744073710000
   \<and> us_of_timespec \<lparr>tv_sec = 18446744073710, tv_nsec = 0\<rparr> div 1000 = 448
   \<and> ms_of_timespec \<lparr>tv_sec = 18446744073710, tv_nsec = 0\<rparr>
       \<noteq> us_of_timespec \<lparr>tv_sec = 18446744073710, tv_nsec = 0\<rparr> div 1000"
  by (simp add: ms_of_timespec_def us_of_timespec_def MILLISECONDS_def MICROSECONDS_def
      c_sdiv_def)

text \<open>
  In \<open>mptime.h\<close> with a 4-byte \<open>long\<close> the two differ from \<open>tv_sec = 2148\<close> on, that is
  after 35.8 minutes.
\<close>

lemma ms_us_narrow_differ:
  "sint (mp_ms_of_timespec (\<lparr>tv_sec = 2148, tv_nsec = 0\<rparr> :: (32 word, 32 word) timespec)) = 2148000
   \<and> sint (c_sdiv (mp_us_of_timespec (\<lparr>tv_sec = 2148, tv_nsec = 0\<rparr> :: (32 word, 32 word) timespec)) 1000)
       = - 2146967"
  by (simp add: mp_ms_of_timespec_def mp_us_of_timespec_def MILLISECONDS_def MICROSECONDS_def
      c_sdiv_def signed_divide_int_def)

text \<open>
  C9, amended: for every \<open>timespec\<close> with \<open>tv_sec \<ge> 0\<close> and \<open>0 \<le> tv_nsec < 10^9\<close> whose
  microsecond count \<open>tv_sec * 1000000 + tv_nsec / 1000\<close> fits the return type (is below
  \<open>2 ^ 64\<close> for the \<open>uint64_t\<close> of \<open>time.c\<close>, below \<open>2 ^ 31\<close> for a 4-byte \<open>long\<close> of
  \<open>mptime.h\<close>), the millisecond timestamp equals the microsecond timestamp divided
  (integer division of the return type) by 1000.
\<close>

theorem ms_us_consistent:
  fixes ts :: timespec64 and nts :: "('t::len word, 32 word) timespec"
  shows
    "(0 \<le> sint (tv_sec ts) \<and> 0 \<le> sint (tv_nsec ts) \<and> sint (tv_nsec ts) < 1000000000
        \<and> exact_us ts < 2 ^ 64
      \<longrightarrow> ms_of_timespec ts = us_of_timespec ts div 1000)
   \<and> (0 \<le> sint (tv_sec nts) \<and> 0 \<le> sint (tv_nsec nts) \<and> sint (tv_nsec nts) < 1000000000
        \<and> exact_us nts < 2 ^ 31
      \<longrightarrow> mp_ms_of_timespec nts = c_sdiv (mp_us_of_timespec nts) 1000)"
proof (intro conjI impI; elim conjE)
  assume "0 \<le> sint (tv_sec ts)" "0 \<le> sint (tv_nsec ts)" "sint (tv_nsec ts) < 1000000000"
    "exact_us ts < 2 ^ 64"
  then show "ms_of_timespec ts = us_of_timespec ts div 1000"
    by (intro ms_us_consistent_wide) (simp_all add: exact_us_def)
next
  assume "0 \<le> sint (tv_sec nts)" "0 \<le> sint (tv_nsec nts)" "exact_us nts < 2 ^ 31"
  then show "mp_ms_of_timespec nts = c_sdiv (mp_us_of_timespec nts) 1000"
    by (rule ms_us_consistent_narrow)
qed

text \<open>The theorem at the clock reading 86400.123456789 s and, for the 4-byte \<open>long\<close>, 2147.4 s.\<close>

theorem ms_us_consistent_witness:
  "ms_of_timespec \<lparr>tv_sec = 86400, tv_nsec = 123456789\<rparr> = 86400123
   \<and> us_of_timespec \<lparr>tv_sec = 86400, tv_nsec = 123456789\<rparr> div 1000 = 86400123
   \<and> mp_ms_of_timespec (\<lparr>tv_sec = 2147, tv_nsec = 400000000\<rparr> :: (32 word, 32 word) timespec)
       = 2147400
   \<and> c_sdiv (mp_us_of_timespec (\<lparr>tv_sec = 2147, tv_nsec = 400000000\<rparr> :: (32 word, 32 word) timespec))
        1000 = 2147400"
proof -
  let ?ts = "\<lparr>tv_sec = 86400, tv_nsec = 123456789\<rparr> :: timespec64"
  let ?nts = "\<lparr>tv_sec = 2147, tv_nsec = 400000000\<rparr> :: (32 word, 32 word) timespec"
  note T = ms_us_consistent [of ?ts ?nts]
  have us: "us_of_timespec ?ts = 86400123456"
    by (simp add: us_of_timespec_def MICROSECONDS_def c_sdiv_def)
  have ms: "mp_ms_of_timespec ?nts = 2147400"
    by (simp add: mp_ms_of_timespec_def MILLISECONDS_def c_sdiv_def)
  from T have "ms_of_timespec ?ts = us_of_timespec ?ts div 1000"
    by (simp add: exact_us_def)
  then have a: "ms_of_timespec ?ts = 86400123 \<and> us_of_timespec ?ts div 1000 = 86400123"
    by (simp add: us)
  from T have "mp_ms_of_timespec ?nts = c_sdiv (mp_us_of_timespec ?nts) 1000"
    by (simp add: exact_us_def)
  then have b: "c_sdiv (mp_us_of_timespec ?nts) 1000 = 2147400" by (simp only: ms)
  from a ms b show ?thesis by (intro conjI) simp_all
qed

section \<open>The sleep request\<close>

lemma sint_eq_uint_small:
  fixes w :: "'a::len word"
  assumes "uint w < 2 ^ (LENGTH('a) - 1)"
  shows "sint w = uint w"
proof -
  have "- (2 ^ (LENGTH('a) - Suc 0)) \<le> uint w"
    by (rule order_trans [of _ 0]) simp_all
  with assms show ?thesis
    by (simp add: sint_uint signed_take_bit_int_eq_self)
qed

lemma ms_remainder: "(ms :: 'a::len word) - ms div 1000 * 1000 = ms mod 1000"
  by (simp add: minus_div_mult_eq_mod)

lemma uint_1000_32: "uint (1000 :: 32 word) = 1000" by simp
lemma uint_1000_64: "uint (1000 :: 64 word) = 1000" by simp

lemma nsec_value_32:
  fixes ms :: "32 word"
  shows "uint ((ms - ms div 1000 * 1000) * 1000000) = (uint ms mod 1000) * 1000000"
proof -
  have m: "uint (ms mod 1000) = uint ms mod 1000" by (simp add: uint_mod)
  have "uint ms mod 1000 < 1000" by simp
  then have "uint (ms mod 1000) * uint (1000000 :: 32 word) < 2 ^ LENGTH(32)"
    by (simp add: m)
  then have "uint ((ms mod 1000) * 1000000) = uint (ms mod 1000) * uint (1000000 :: 32 word)"
    by (simp only: uint_mult_lem)
  then show ?thesis by (simp add: ms_remainder m)
qed

lemma nsec_value_64:
  fixes ms :: "64 word"
  shows "uint ((ms - ms div 1000 * 1000) * 1000000) = (uint ms mod 1000) * 1000000"
proof -
  have m: "uint (ms mod 1000) = uint ms mod 1000" by (simp add: uint_mod)
  have "uint ms mod 1000 < 1000" by simp
  then have "uint (ms mod 1000) * uint (1000000 :: 64 word) < 2 ^ LENGTH(64)"
    by (simp add: m)
  then have "uint ((ms mod 1000) * 1000000) = uint (ms mod 1000) * uint (1000000 :: 64 word)"
    by (simp only: uint_mult_lem)
  then show ?thesis by (simp add: ms_remainder m)
qed

lemma sint_ucast_32_64: "sint (ucast (x :: 32 word) :: 64 word) = uint x"
proof -
  have u: "uint (ucast x :: 64 word) = uint x"
    by (rule uint_up_ucast) (simp add: is_up)
  have "uint x < 2 ^ 32" using uint_lt2p [of x] by simp
  then have "uint (ucast x :: 64 word) < 2 ^ (LENGTH(64) - 1)" by (simp add: u)
  then show ?thesis using u by (simp only: sint_eq_uint_small)
qed

lemma millisleep_ts_fields:
  "tv_sec (millisleep_ts ms) = ucast (ms div 1000)"
  "tv_nsec (millisleep_ts ms) = ucast ((ms - ms div 1000 * 1000) * 1000000)"
  by (simp_all add: millisleep_ts_def MILLISECONDS_def Let_def)

lemma mp_millisleep_ts_fields:
  "tv_sec (mp_millisleep_ts ms) = ms div 1000"
  "tv_nsec (mp_millisleep_ts ms) = (ms - ms div 1000 * 1000) * 1000000"
  by (simp_all add: mp_millisleep_ts_def MILLISECONDS_def Let_def)

lemma millisleep_ts_sec: "sint (tv_sec (millisleep_ts ms)) = uint ms div 1000"
  by (simp only: millisleep_ts_fields sint_ucast_32_64 uint_div uint_1000_32)

lemma millisleep_ts_nsec: "sint (tv_nsec (millisleep_ts ms)) = (uint ms mod 1000) * 1000000"
  by (simp only: millisleep_ts_fields sint_ucast_32_64 nsec_value_32)

lemma mp_millisleep_ts_sec: "sint (tv_sec (mp_millisleep_ts ms)) = uint ms div 1000"
proof -
  have "uint ms < 2 ^ 64" using uint_lt2p [of ms] by simp
  then have "uint ms div 1000 < 2 ^ 63" by simp
  then have "uint (ms div 1000) < 2 ^ (LENGTH(64) - 1)" by (simp add: uint_div)
  then have "sint (ms div 1000) = uint (ms div 1000)" by (rule sint_eq_uint_small)
  then show ?thesis by (simp only: mp_millisleep_ts_fields uint_div uint_1000_64)
qed

lemma mp_millisleep_ts_nsec: "sint (tv_nsec (mp_millisleep_ts ms)) = (uint ms mod 1000) * 1000000"
proof -
  let ?n = "(ms - ms div 1000 * 1000) * 1000000"
  have "uint ms mod 1000 < 1000" by simp
  then have "uint ?n < 2 ^ (LENGTH(64) - 1)" unfolding nsec_value_64 by simp
  then have "sint ?n = uint ?n" by (rule sint_eq_uint_small)
  then show ?thesis
    by (simp only: mp_millisleep_ts_fields nsec_value_64)
qed

lemma request_arith:
  fixes d :: int
  assumes "0 \<le> d"
  shows "(d - d div 1000 * 1000) * 1000000 = (d mod 1000) * 1000000"
    and "d div 1000 * 1000 + (d mod 1000) * 1000000 div 1000000 = d"
    and "0 \<le> (d mod 1000) * 1000000" and "(d mod 1000) * 1000000 < 1000000000"
proof -
  show "(d - d div 1000 * 1000) * 1000000 = (d mod 1000) * 1000000"
    by (simp add: minus_div_mult_eq_mod)
  show "d div 1000 * 1000 + (d mod 1000) * 1000000 div 1000000 = d" by simp
  have "0 \<le> d mod 1000" "d mod 1000 < 1000" by simp_all
  then show "0 \<le> (d mod 1000) * 1000000" "(d mod 1000) * 1000000 < 1000000000"
    by simp_all
qed

text \<open>
  C7: for every duration \<open>d\<close> in milliseconds, \<open>millisleep\<close> on the POSIX backend builds a
  \<open>timespec\<close> with \<open>tv_sec = d / 1000\<close> and \<open>tv_nsec = (d - tv_sec * 1000) * 1000000\<close>, so
  that \<open>tv_sec * 1000 + tv_nsec / 1000000 = d\<close> and \<open>0 \<le> tv_nsec < 10^9\<close>, and hands it to
  one call of \<open>nanosleep\<close>, whatever that call returns: the world after \<open>millisleep\<close> is
  the world after that one call. Against the model of \<open>nanosleep\<close> the request is logged
  once, an uninterrupted sleep lasts at least \<open>d\<close> milliseconds, and a sleep interrupted
  by a signal after \<open>k\<close> nanoseconds ends there and is not resumed.
\<close>

theorem millisleep_request:
  fixes ms :: "32 word" and lms :: "64 word" and os :: sleep_os
    and ns :: "'w nanosleep_fn"
  shows
    "sint (tv_sec (millisleep_ts ms)) = uint ms div 1000
   \<and> sint (tv_nsec (millisleep_ts ms)) = (uint ms - sint (tv_sec (millisleep_ts ms)) * 1000) * 1000000
   \<and> sint (tv_sec (millisleep_ts ms)) * 1000 + sint (tv_nsec (millisleep_ts ms)) div 1000000 = uint ms
   \<and> 0 \<le> sint (tv_nsec (millisleep_ts ms)) \<and> sint (tv_nsec (millisleep_ts ms)) < 1000000000
   \<and> sint (tv_sec (mp_millisleep_ts lms)) = uint lms div 1000
   \<and> sint (tv_nsec (mp_millisleep_ts lms))
        = (uint lms - sint (tv_sec (mp_millisleep_ts lms)) * 1000) * 1000000
   \<and> sint (tv_sec (mp_millisleep_ts lms)) * 1000 + sint (tv_nsec (mp_millisleep_ts lms)) div 1000000
        = uint lms
   \<and> 0 \<le> sint (tv_nsec (mp_millisleep_ts lms)) \<and> sint (tv_nsec (mp_millisleep_ts lms)) < 1000000000
   \<and> millisleep ns ms w = snd (snd (ns (millisleep_ts ms) w))
   \<and> mp_millisleep ns lms w = snd (snd (ns (mp_millisleep_ts lms) w))
   \<and> nap_requests (millisleep posix_nanosleep ms os) = nap_requests os @ [millisleep_ts ms]
   \<and> (signal_in os = None \<longrightarrow>
        elapsed_ns os + uint ms * 1000000 \<le> elapsed_ns (millisleep posix_nanosleep ms os))
   \<and> (\<forall>k. signal_in os = Some k \<and> int k < uint ms * 1000000 \<longrightarrow>
        elapsed_ns (millisleep posix_nanosleep ms os) = elapsed_ns os + int k)"
proof -
  let ?ts = "millisleep_ts ms" and ?lts = "mp_millisleep_ts lms"
  have "0 \<le> uint ms" "0 \<le> uint lms" by simp_all
  note a = request_arith [OF this(1)] and b = request_arith [OF this(2)]
  have t: "sint (tv_sec ?ts) = uint ms div 1000" "sint (tv_nsec ?ts) = (uint ms mod 1000) * 1000000"
    by (rule millisleep_ts_sec, rule millisleep_ts_nsec)
  have l: "sint (tv_sec ?lts) = uint lms div 1000" "sint (tv_nsec ?lts) = (uint lms mod 1000) * 1000000"
    by (rule mp_millisleep_ts_sec, rule mp_millisleep_ts_nsec)
  have want: "sint (tv_sec ?ts) * 1000000000 + sint (tv_nsec ?ts) = uint ms * 1000000"
    unfolding t by (simp add: algebra_simps flip: a(1))
  have valid: "\<not> (sint (tv_sec ?ts) < 0 \<or> sint (tv_nsec ?ts) < 0 \<or> 999999999 < sint (tv_nsec ?ts))"
  proof -
    have "0 \<le> uint ms div 1000" by (simp add: pos_imp_zdiv_nonneg_iff)
    with a(3,4) show ?thesis unfolding t by linarith
  qed
  have c1: "millisleep ns ms w = snd (snd (ns ?ts w))"
    by (simp add: millisleep_def Let_def split: prod.splits)
  have c2: "mp_millisleep ns lms w = snd (snd (ns ?lts w))"
    by (simp add: mp_millisleep_def Let_def split: prod.splits)
  have run: "millisleep posix_nanosleep ms os = snd (snd (posix_nanosleep ?ts os))"
    by (simp add: millisleep_def Let_def split: prod.splits)
  have c3: "nap_requests (millisleep posix_nanosleep ms os) = nap_requests os @ [?ts]"
    unfolding run by (simp add: posix_nanosleep_def Let_def split: option.splits)
  have c4: "elapsed_ns os + uint ms * 1000000 \<le> elapsed_ns (millisleep posix_nanosleep ms os)"
    if "signal_in os = None"
    unfolding run using that valid want by (simp add: posix_nanosleep_def Let_def)
  have c5: "elapsed_ns (millisleep posix_nanosleep ms os) = elapsed_ns os + int k"
    if "signal_in os = Some k \<and> int k < uint ms * 1000000" for k
    unfolding run using that valid want by (simp add: posix_nanosleep_def Let_def)
  have p: "sint (tv_nsec ?ts) = (uint ms - sint (tv_sec ?ts) * 1000) * 1000000"
    "sint (tv_sec ?ts) * 1000 + sint (tv_nsec ?ts) div 1000000 = uint ms"
    "0 \<le> sint (tv_nsec ?ts)" "sint (tv_nsec ?ts) < 1000000000"
    unfolding t using a by simp_all
  have q: "sint (tv_nsec ?lts) = (uint lms - sint (tv_sec ?lts) * 1000) * 1000000"
    "sint (tv_sec ?lts) * 1000 + sint (tv_nsec ?lts) div 1000000 = uint lms"
    "0 \<le> sint (tv_nsec ?lts)" "sint (tv_nsec ?lts) < 1000000000"
    unfolding l using b by simp_all
  from t(1) p l(1) q c1 c2 c3 c4 c5 show ?thesis by blast
qed

theorem millisleep_request_witness:
  "millisleep_ts 1500 = \<lparr>tv_sec = 1, tv_nsec = 500000000\<rparr>
   \<and> elapsed_ns (millisleep posix_nanosleep 1500
         \<lparr>elapsed_ns = 0, nap_requests = [], signal_in = None, wake_delay = 7\<rparr>) \<ge> 1500000000
   \<and> elapsed_ns (millisleep posix_nanosleep 1500
         \<lparr>elapsed_ns = 0, nap_requests = [], signal_in = Some 1000, wake_delay = 7\<rparr>) = 1000"
proof -
  let ?quiet = "\<lparr>elapsed_ns = 0, nap_requests = [], signal_in = None, wake_delay = 7\<rparr>"
  let ?sig = "\<lparr>elapsed_ns = 0, nap_requests = [], signal_in = Some 1000, wake_delay = 7\<rparr>"
  have ts: "millisleep_ts 1500 = \<lparr>tv_sec = 1, tv_nsec = 500000000\<rparr>"
    by (simp add: millisleep_ts_def MILLISECONDS_def)
  have "signal_in ?quiet = None \<longrightarrow>
      elapsed_ns ?quiet + uint (1500 :: 32 word) * 1000000
        \<le> elapsed_ns (millisleep posix_nanosleep 1500 ?quiet)"
    using millisleep_request [where ms = 1500 and lms = 0 and ns = posix_nanosleep
        and os = ?quiet and w = ?quiet]
    by blast
  then have a: "elapsed_ns (millisleep posix_nanosleep 1500 ?quiet) \<ge> 1500000000"
    by simp
  have "\<forall>k. signal_in ?sig = Some k \<and> int k < uint (1500 :: 32 word) * 1000000 \<longrightarrow>
      elapsed_ns (millisleep posix_nanosleep 1500 ?sig) = elapsed_ns ?sig + int k"
    using millisleep_request [where ms = 1500 and lms = 0 and ns = posix_nanosleep
        and os = ?sig and w = ?sig]
    by blast
  then have b: "elapsed_ns (millisleep posix_nanosleep 1500 ?sig) = 1000"
    by simp
  from ts a b show ?thesis by (intro conjI)
qed

section \<open>Waiting for several threads\<close>

lemma first_error_Cons:
  "first_error (r # rs) = (if r \<noteq> 0 then r else first_error rs)"
  by (simp add: first_error_def)

lemma multiwait_loop_suffix:
  "multiwait_loop wait (pre @ rest) (int (length pre + length rest)) (int (length pre)) ecode w
   = (case wait_each wait rest w of
        (rs, hs, w') \<Rightarrow> Inr (if ecode \<noteq> 0 then ecode else first_error rs, pre @ hs, w'))"
proof (induction rest arbitrary: pre ecode w)
  case Nil
  show ?case by (subst multiwait_loop.simps) (simp add: first_error_def)
next
  case (Cons t ts)
  obtain r h w1 where step: "wait t w = (r, h, w1)" by (cases "wait t w")
  obtain rs hs w2 where rest: "wait_each wait ts w1 = (rs, hs, w2)"
    by (cases "wait_each wait ts w1")
  let ?e = "if r \<noteq> 0 \<and> ecode = 0 then r else ecode"
  have upd: "(pre @ t # ts)[length pre := h] = (pre @ [h]) @ ts" by simp
  have "multiwait_loop wait (pre @ t # ts) (int (length pre + length (t # ts)))
          (int (length pre)) ecode w
        = multiwait_loop wait ((pre @ [h]) @ ts) (int (length (pre @ [h]) + length ts))
          (int (length (pre @ [h]))) ?e w1"
    by (subst multiwait_loop.simps) (simp add: step upd add.commute)
  also have "\<dots> = Inr (if ?e \<noteq> 0 then ?e else first_error rs, (pre @ [h]) @ hs, w2)"
    by (simp only: Cons.IH rest prod.case)
  finally show ?case
    by (simp add: step rest first_error_Cons)
qed

lemma thread_multiwait_refines:
  "thread_multiwait wait tids (int (length tids)) w
   = (case wait_each wait tids w of (rs, hs, w') \<Rightarrow> Inr (first_error rs, hs, w'))"
  using multiwait_loop_suffix [of wait "[]" tids 0 w]
  by (simp add: thread_multiwait_def)


lemma wait_each_lengths:
  "wait_each wait tids w = (rs, hs, w') \<Longrightarrow> length rs = length tids \<and> length hs = length tids"
proof (induction tids arbitrary: w rs hs w')
  case Nil
  then show ?case by simp
next
  case (Cons t ts)
  then show ?case by (auto simp: Let_def split: prod.splits)
qed

lemma first_error_zero_iff: "first_error rs = 0 \<longleftrightarrow> (\<forall>i < length rs. rs ! i = 0)"
proof (induction rs)
  case Nil
  show ?case by (simp add: first_error_def)
next
  case (Cons r rs)
  show ?case
  proof (cases "r = 0")
    case True
    then show ?thesis
      using Cons.IH by (auto simp: first_error_Cons nth_Cons split: nat.splits)
  next
    case False
    then show ?thesis by (auto simp: first_error_Cons)
  qed
qed

lemma first_error_least:
  "j < length rs \<Longrightarrow> rs ! j \<noteq> 0 \<Longrightarrow> (\<forall>i < j. rs ! i = 0) \<Longrightarrow> first_error rs = rs ! j"
proof (induction rs arbitrary: j)
  case Nil
  then show ?case by simp
next
  case (Cons r rs)
  show ?case
  proof (cases j)
    case 0
    with Cons.prems show ?thesis by (simp add: first_error_Cons)
  next
    case (Suc k)
    with Cons.prems have "r = 0" by auto
    moreover have "first_error rs = rs ! k"
      using Cons.prems Suc by (intro Cons.IH) auto
    ultimately show ?thesis using Suc by (simp add: first_error_Cons)
  qed
qed

lemma join_results_length [simp]: "length (join_results os n ts) = length ts"
  by (induction ts arbitrary: n) simp_all

lemma join_results_nth:
  "i < length ts \<Longrightarrow> join_results os n ts ! i = outcome os (n + i) (ts ! i)"
proof (induction ts arbitrary: n i)
  case Nil
  then show ?case by simp
next
  case (Cons t ts)
  then show ?case by (cases i) simp_all
qed

lemma join_results_joins [simp]:
  "join_results (os\<lparr>joins := js\<rparr>) n ts = join_results os n ts"
  by (induction ts arbitrary: n) simp_all

lemma wait_each_thread_wait:
  "wait_each thread_wait tids os
   = (join_results os (length (joins os)) tids, replicate (length tids) 0,
      os\<lparr>joins := joins os @ tids\<rparr>)"
proof (induction tids arbitrary: os)
  case Nil
  show ?case by simp
next
  case (Cons t ts)
  have step: "thread_wait t os
      = (outcome os (length (joins os)) t, 0, os\<lparr>joins := joins os @ [t]\<rparr>)"
    by (simp add: thread_wait_def pthread_join_def)
  show ?case
    by (simp add: step Cons.IH)
qed

text \<open>
  C2: for every list of thread handles of length \<open>K\<close> and every assignment of join
  outcomes, \<open>thread_multiwait\<close> with \<open>len = K\<close> waits on each of the \<open>K\<close> handles once, in
  index order, never stopping at a failure, and returns 0 if every wait returned 0 and
  otherwise the return value of the wait at the smallest failing index. First for any
  \<open>thread_wait\<close>: the loop is \<open>wait_each\<close> followed by \<open>first_error\<close>. Then for the
  \<open>thread_wait\<close> of thread.c on UNIX against the log of \<open>pthread_join\<close>: the log grows by
  the handles of the list in their order, and the result is that of the first failing
  join.
\<close>

theorem thread_multiwait_joins_all:
  fixes wait :: "('h, 'w) wait_fn" and os :: "(pthread_t, int) join_os"
  shows
    "(case wait_each wait tids w of (rs, hs, w') \<Rightarrow>
        thread_multiwait wait tids (int (length tids)) w = Inr (first_error rs, hs, w')
        \<and> length rs = length tids
        \<and> (first_error rs = 0 \<longleftrightarrow> (\<forall>i < length tids. rs ! i = 0))
        \<and> (\<forall>j < length tids. rs ! j \<noteq> 0 \<and> (\<forall>i < j. rs ! i = 0) \<longrightarrow> first_error rs = rs ! j))
   \<and> (case thread_multiwait thread_wait ptids (int (length ptids)) os of
        Inl f \<Rightarrow> False
      | Inr (e, hs, os') \<Rightarrow>
          joins os' = joins os @ ptids
          \<and> (e = 0 \<longleftrightarrow> (\<forall>i < length ptids. outcome os (length (joins os) + i) (ptids ! i) = 0))
          \<and> (\<forall>j < length ptids.
                outcome os (length (joins os) + j) (ptids ! j) \<noteq> 0
                \<and> (\<forall>i < j. outcome os (length (joins os) + i) (ptids ! i) = 0)
                \<longrightarrow> e = outcome os (length (joins os) + j) (ptids ! j)))"
proof -
  obtain rs hs w' where we: "wait_each wait tids w = (rs, hs, w')"
    by (cases "wait_each wait tids w")
  have len: "length rs = length tids" using wait_each_lengths [OF we] by simp
  have a: "thread_multiwait wait tids (int (length tids)) w = Inr (first_error rs, hs, w')"
    by (simp add: thread_multiwait_refines we)
  have b: "first_error rs = 0 \<longleftrightarrow> (\<forall>i < length tids. rs ! i = 0)"
    by (simp add: first_error_zero_iff len)
  have c: "\<forall>j < length tids. rs ! j \<noteq> 0 \<and> (\<forall>i < j. rs ! i = 0) \<longrightarrow> first_error rs = rs ! j"
    by (auto simp: len intro: first_error_least)
  let ?n = "length (joins os)"
  let ?rs = "join_results os ?n ptids"
  have run: "thread_multiwait thread_wait ptids (int (length ptids)) os
      = Inr (first_error ?rs, replicate (length ptids) 0, os\<lparr>joins := joins os @ ptids\<rparr>)"
    by (simp add: thread_multiwait_refines wait_each_thread_wait)
  have d: "first_error ?rs = 0 \<longleftrightarrow> (\<forall>i < length ptids. outcome os (?n + i) (ptids ! i) = 0)"
    by (simp add: first_error_zero_iff join_results_nth)
  have e: "first_error ?rs = outcome os (?n + j) (ptids ! j)"
    if "j < length ptids" "outcome os (?n + j) (ptids ! j) \<noteq> 0"
      "\<forall>i < j. outcome os (?n + i) (ptids ! i) = 0" for j
  proof -
    have "first_error ?rs = ?rs ! j"
      using that by (intro first_error_least) (simp_all add: join_results_nth)
    then show ?thesis using that(1) by (simp add: join_results_nth)
  qed
  from a len b c have first: "case wait_each wait tids w of (rs, hs, w') \<Rightarrow>
        thread_multiwait wait tids (int (length tids)) w = Inr (first_error rs, hs, w')
        \<and> length rs = length tids
        \<and> (first_error rs = 0 \<longleftrightarrow> (\<forall>i < length tids. rs ! i = 0))
        \<and> (\<forall>j < length tids. rs ! j \<noteq> 0 \<and> (\<forall>i < j. rs ! i = 0) \<longrightarrow> first_error rs = rs ! j)"
    by (simp add: we)
  from d e have second: "case thread_multiwait thread_wait ptids (int (length ptids)) os of
        Inl f \<Rightarrow> False
      | Inr (e, hs, os') \<Rightarrow>
          joins os' = joins os @ ptids
          \<and> (e = 0 \<longleftrightarrow> (\<forall>i < length ptids. outcome os (length (joins os) + i) (ptids ! i) = 0))
          \<and> (\<forall>j < length ptids.
                outcome os (length (joins os) + j) (ptids ! j) \<noteq> 0
                \<and> (\<forall>i < j. outcome os (length (joins os) + i) (ptids ! i) = 0)
                \<longrightarrow> e = outcome os (length (joins os) + j) (ptids ! j))"
    unfolding run by simp
  from first second show ?thesis by (rule conjI)
qed

theorem thread_multiwait_joins_all_witness:
  "(case thread_multiwait thread_wait [11, 22, 33] 3
          \<lparr>joins = [], outcome = (\<lambda>n t. if n = 1 then 3 else if n = 2 then 22 else 0)\<rparr> of
      Inl f \<Rightarrow> False
    | Inr (e, hs, os') \<Rightarrow> e = 3 \<and> joins os' = [11, 22, 33])"
proof -
  let ?os = "\<lparr>joins = [], outcome = (\<lambda>n t. if n = 1 then 3 else if n = 2 then 22 else (0::int))\<rparr>
    :: (pthread_t, int) join_os"
  let ?ts = "[11, 22, 33] :: pthread_t list"
  have T: "case thread_multiwait thread_wait ?ts (int (length ?ts)) ?os of
        Inl f \<Rightarrow> False
      | Inr (e, hs, os') \<Rightarrow>
          joins os' = joins ?os @ ?ts
          \<and> (e = 0 \<longleftrightarrow> (\<forall>i < length ?ts. outcome ?os (length (joins ?os) + i) (?ts ! i) = 0))
          \<and> (\<forall>j < length ?ts.
                outcome ?os (length (joins ?os) + j) (?ts ! j) \<noteq> 0
                \<and> (\<forall>i < j. outcome ?os (length (joins ?os) + i) (?ts ! i) = 0)
                \<longrightarrow> e = outcome ?os (length (joins ?os) + j) (?ts ! j))"
    using thread_multiwait_joins_all [where wait = thread_wait and tids = ?ts and w = ?os
        and ptids = ?ts and os = ?os]
    by (rule conjunct2)
  obtain e hs os' where r: "thread_multiwait thread_wait ?ts (int (length ?ts)) ?os = Inr (e, hs, os')"
    using T by (cases "thread_multiwait thread_wait ?ts (int (length ?ts)) ?os") auto
  from T have j: "joins os' = ?ts"
    and l: "\<forall>j < length ?ts.
                outcome ?os (length (joins ?os) + j) (?ts ! j) \<noteq> 0
                \<and> (\<forall>i < j. outcome ?os (length (joins ?os) + i) (?ts ! i) = 0)
                \<longrightarrow> e = outcome ?os (length (joins ?os) + j) (?ts ! j)"
    unfolding r by simp_all
  from l have "e = 3" by (drule_tac x = 1 in spec) simp
  with j r show ?thesis by simp
qed


section \<open>The handle after \<open>thread_wait\<close>\<close>

text \<open>
  On UNIX \<open>thread_wait\<close> of thread.c leaves 0 at \<open>threadid\<close> on every path; on Windows it
  does so once \<open>OpenThread\<close> has given a handle.
\<close>

lemma thread_wait_clears:
  "thread_wait threadid os = (ecode, h, os') \<Longrightarrow> h = 0"
  by (auto simp: thread_wait_def split: prod.splits)

lemma win_thread_wait_clears_when_opened:
  "win_thread_wait threadid os = (ecode, h, os')
   \<Longrightarrow> open_thread (outcome os (length (joins os)) threadid) \<noteq> None \<Longrightarrow> h = 0"
  by (auto simp: win_thread_wait_def Let_def split: option.splits)

text \<open>
  C5 says that the \<open>ThreadID\<close> at the pointer is 0 whenever \<open>thread_wait\<close> returns. On
  Windows, for the identifier 1234 of a thread that \<open>OpenThread\<close> cannot open (it returns
  \<open>NULL\<close>, and \<open>GetLastError\<close> gives 87), \<open>thread_wait\<close> of thread.c returns 87 through its
  early \<open>return\<close> and leaves 1234 at the pointer.
\<close>

theorem win_thread_wait_keeps_handle:
  "win_thread_wait 1234
     \<lparr>joins = [], outcome = (\<lambda>n t. \<lparr>open_thread = None, wait_result = 0, last_error = 87\<rparr>)\<rparr>
   = (87, 1234,
      \<lparr>joins = [1234], outcome = (\<lambda>n t. \<lparr>open_thread = None, wait_result = 0, last_error = 87\<rparr>)\<rparr>)"
  by (simp add: win_thread_wait_def)

section \<open>Releasing a read/write lock on POSIX\<close>

text \<open>
  C10: on the POSIX backend \<open>rwlock_rdunlock\<close> and \<open>rwlock_wrunlock\<close> are the same
  operation: for every behaviour of the operating system's unlock and every lock, both
  make the one call of that unlock on the lock and return what it returns; in
  particular for the model of \<open>pthread_rwlock_unlock\<close> and every mode the lock is held in.
\<close>

theorem posix_unlocks_coincide:
  "rwlock_rdunlock unlock rwlock = rwlock_wrunlock unlock rwlock
   \<and> rwlock_rdunlock unlock rwlock = unlock rwlock
   \<and> rwlock_wrunlock unlock rwlock = unlock rwlock
   \<and> rwlock_rdunlock pthread_rwlock_unlock l = rwlock_wrunlock pthread_rwlock_unlock l
   \<and> rwlock_rdunlock = (rwlock_wrunlock :: ('l \<Rightarrow> int \<times> 'l) \<Rightarrow> 'l \<Rightarrow> int \<times> 'l)"
proof -
  have "rwlock_rdunlock u x = rwlock_wrunlock u x" for u :: "'l \<Rightarrow> int \<times> 'l" and x
    by (simp add: rwlock_rdunlock_def rwlock_wrunlock_def)
  then have "rwlock_rdunlock = (rwlock_wrunlock :: ('l \<Rightarrow> int \<times> 'l) \<Rightarrow> 'l \<Rightarrow> int \<times> 'l)"
    by (intro ext)
  then show ?thesis
    by (simp add: rwlock_rdunlock_def rwlock_wrunlock_def)
qed

section \<open>Concurrent first use of a static Mutex\<close>

lemma lock_inv_start: "lock_inv (\<lambda>t. TestInit, start)"
  by (simp add: lock_inv_def gate_ok_def data_ok_def start_def MUTEX_INITIALIZER_def)

lemma gate_ok_same:
  assumes "gate_ok (pcs, s)" "in_gate p = in_gate (pcs t)" "initlock s' = initlock s"
  shows "gate_ok (pcs(t := p), s')"
proof -
  have "in_gate ((pcs(t := p)) u) = in_gate (pcs u)" for u
    using assms(2) by simp
  then show ?thesis using assms(1,3) by (simp add: gate_ok_def)
qed

lemma gate_ok_claim:
  assumes "gate_ok (pcs, s)" "initlock s = 0" "in_gate p" "initlock s' = 1"
  shows "gate_ok (pcs(t := p), s')"
proof -
  from assms(1,2) have none: "\<forall>u. \<not> in_gate (pcs u)" by (simp add: gate_ok_def)
  have "in_gate ((pcs(t := p)) t)" using assms(3) by simp
  moreover have "\<forall>u. in_gate ((pcs(t := p)) u) \<longrightarrow> u = t" using none by simp
  ultimately show ?thesis using assms(4) unfolding gate_ok_def by (auto simp del: fun_upd_apply)
qed

lemma gate_ok_release:
  assumes "gate_ok (pcs, s)" "in_gate (pcs t)" "\<not> in_gate p" "initlock s' = 0"
  shows "gate_ok (pcs(t := p), s')"
proof -
  from assms(1,2) have "\<forall>u. in_gate (pcs u) \<longrightarrow> u = t" by (auto simp: gate_ok_def)
  then have "\<forall>u. \<not> in_gate ((pcs(t := p)) u)" using assms(3) by auto
  then show ?thesis using assms(4) by (simp add: gate_ok_def del: fun_upd_apply)
qed

lemma gate_holder_unique:
  assumes "gate_ok (pcs, s)" "in_gate (pcs t)" "in_gate (pcs u)"
  shows "u = t"
  using assms by (auto simp: gate_ok_def)

lemma gate_held:
  assumes "gate_ok (pcs, s)" "in_gate (pcs t)"
  shows "initlock s = 1"
  using assms by (auto simp: gate_ok_def)

lemma gate_bit: "gate_ok (pcs, s) \<Longrightarrow> initlock s = 0 \<or> initlock s = 1"
  by (auto simp: gate_ok_def)

lemma data_okE:
  assumes "data_ok (pcs, s)"
  obtains
    (A) "init (mutex s) = 0" "init_calls s = 0" "lock (mutex s) = CS_Uninit"
        "\<And>u. phaseA_pc (pcs u)"
  | (B) h where "init (mutex s) = 0" "init_calls s = 1" "lock (mutex s) \<noteq> CS_Uninit"
        "pcs h = SetInit" "\<And>u. phaseB_pc (pcs u)"
  | (C) "init (mutex s) = 1" "init_calls s = 1" "lock (mutex s) \<noteq> CS_Uninit"
        "\<And>u. phaseC_pc (pcs u)"
proof -
  from assms consider
    "init (mutex s) = 0 \<and> init_calls s = 0 \<and> lock (mutex s) = CS_Uninit
        \<and> (\<forall>t. phaseA_pc (pcs t))"
    | "init (mutex s) = 0 \<and> init_calls s = 1 \<and> lock (mutex s) \<noteq> CS_Uninit
        \<and> (\<exists>h. pcs h = SetInit) \<and> (\<forall>t. phaseB_pc (pcs t))"
    | "init (mutex s) = 1 \<and> init_calls s = 1 \<and> lock (mutex s) \<noteq> CS_Uninit
        \<and> (\<forall>t. phaseC_pc (pcs t))"
    unfolding data_ok_def fst_conv snd_conv by blast
  then show thesis
  proof cases
    case 1
    then show ?thesis by (intro A) simp_all
  next
    case 2
    then obtain h where "pcs h = SetInit" by blast
    with 2 show ?thesis by (intro B [of h]) simp_all
  next
    case 3
    then show ?thesis by (intro C) simp_all
  qed
qed

lemma data_okA:
  assumes "init (mutex s) = 0" "init_calls s = 0" "lock (mutex s) = CS_Uninit"
    "\<And>u. phaseA_pc (pcs u)"
  shows "data_ok (pcs, s)"
  using assms unfolding data_ok_def fst_conv snd_conv by blast

lemma data_okB:
  assumes "init (mutex s) = 0" "init_calls s = 1" "lock (mutex s) \<noteq> CS_Uninit"
    "pcs h = SetInit" "\<And>u. phaseB_pc (pcs u)"
  shows "data_ok (pcs, s)"
  using assms unfolding data_ok_def fst_conv snd_conv by blast

lemma data_okC:
  assumes "init (mutex s) = 1" "init_calls s = 1" "lock (mutex s) \<noteq> CS_Uninit"
    "\<And>u. phaseC_pc (pcs u)"
  shows "data_ok (pcs, s)"
  using assms unfolding data_ok_def fst_conv snd_conv by blast

lemma step_TestInit:
  assumes "lock_inv (pcs, s)" "pcs t = TestInit"
  shows "lock_inv (sched_step t (pcs, s))"
proof -
  from assms(1) have g: "gate_ok (pcs, s)" and d: "data_ok (pcs, s)"
    by (simp_all add: lock_inv_def)
  let ?p = "if init (mutex s) = 0 then SpinInitlock else EnterCS"
  have st: "sched_step t (pcs, s) = (pcs(t := ?p), s)"
    by (simp add: sched_step_def assms(2))
  have g': "gate_ok (pcs(t := ?p), s)"
    using g by (rule gate_ok_same) (simp_all add: assms(2))
  from d have "data_ok (pcs(t := ?p), s)"
  proof (cases rule: data_okE)
    case A
    then show ?thesis by (intro data_okA) simp_all
  next
    case (B h)
    have "h \<noteq> t" using B(4) assms(2) by auto
    then have "(pcs(t := ?p)) h = SetInit" using B(4) by simp
    with B show ?thesis by (intro data_okB [where h = h]) simp_all
  next
    case C
    then show ?thesis by (intro data_okC) simp_all
  qed
  with g' show ?thesis by (simp add: st lock_inv_def)
qed

lemma step_SpinInitlock:
  assumes "lock_inv (pcs, s)" "pcs t = SpinInitlock"
  shows "lock_inv (sched_step t (pcs, s))"
proof -
  from assms(1) have g: "gate_ok (pcs, s)" and d: "data_ok (pcs, s)"
    by (simp_all add: lock_inv_def)
  show ?thesis
  proof (cases "initlock s = 0")
    case False
    with gate_bit [OF g] have one: "initlock s = 1" by simp
    have "pcs(t := SpinInitlock) = pcs" using assms(2) by auto
    moreover have "s\<lparr>initlock := 1\<rparr> = s" using one by simp
    ultimately have "sched_step t (pcs, s) = (pcs, s)"
      by (simp add: sched_step_def assms(2) InterlockedCompareExchange_def one)
    with assms(1) show ?thesis by simp
  next
    case True
    have st: "sched_step t (pcs, s) = (pcs(t := RetestInit), s\<lparr>initlock := 1\<rparr>)"
      by (simp add: sched_step_def assms(2) InterlockedCompareExchange_def True)
    have g': "gate_ok (pcs(t := RetestInit), s\<lparr>initlock := 1\<rparr>)"
      using g True by (rule gate_ok_claim) simp_all
    from g True have free: "\<And>u. \<not> in_gate (pcs u)" by (simp add: gate_ok_def)
    from d have "data_ok (pcs(t := RetestInit), s\<lparr>initlock := 1\<rparr>)"
    proof (cases rule: data_okE)
      case A
      then show ?thesis by (intro data_okA) simp_all
    next
      case (B h)
      with free [of h] show ?thesis by simp
    next
      case C
      then show ?thesis by (intro data_okC) simp_all
    qed
    with g' show ?thesis by (simp add: st lock_inv_def)
  qed
qed

lemma step_RetestInit:
  assumes "lock_inv (pcs, s)" "pcs t = RetestInit"
  shows "lock_inv (sched_step t (pcs, s))"
proof -
  from assms(1) have g: "gate_ok (pcs, s)" and d: "data_ok (pcs, s)"
    by (simp_all add: lock_inv_def)
  let ?p = "if init (mutex s) = 0 then InitCS else ReleaseInitlock"
  have st: "sched_step t (pcs, s) = (pcs(t := ?p), s)"
    by (simp add: sched_step_def assms(2))
  have g': "gate_ok (pcs(t := ?p), s)"
    using g by (rule gate_ok_same) (simp_all add: assms(2))
  from d have "data_ok (pcs(t := ?p), s)"
  proof (cases rule: data_okE)
    case A
    then show ?thesis by (intro data_okA) simp_all
  next
    case (B h)
    from B(5) [of t] show ?thesis by (simp add: assms(2))
  next
    case C
    then show ?thesis by (intro data_okC) simp_all
  qed
  with g' show ?thesis by (simp add: st lock_inv_def)
qed

lemma step_InitCS:
  assumes "lock_inv (pcs, s)" "pcs t = InitCS"
  shows "lock_inv (sched_step t (pcs, s))"
proof -
  from assms(1) have g: "gate_ok (pcs, s)" and d: "data_ok (pcs, s)"
    by (simp_all add: lock_inv_def)
  let ?s = "s\<lparr>mutex := (mutex s)\<lparr>lock := InitializeCriticalSection (lock (mutex s))\<rparr>,
               init_calls := init_calls s + 1\<rparr>"
  have st: "sched_step t (pcs, s) = (pcs(t := SetInit), ?s)"
    by (simp add: sched_step_def assms(2))
  have g': "gate_ok (pcs(t := SetInit), ?s)"
    using g by (rule gate_ok_same) (simp_all add: assms(2))
  have only: "\<not> in_gate (pcs u)" if "u \<noteq> t" for u
    using gate_holder_unique [OF g, of t u] that by (auto simp: assms(2))
  from d have "data_ok (pcs(t := SetInit), ?s)"
  proof (cases rule: data_okE)
    case A
    have "phaseB_pc ((pcs(t := SetInit)) u)" for u
    proof (cases "u = t")
      case True
      then show ?thesis by simp
    next
      case False
      with only [of u] A(4) [of u] show ?thesis by (cases "pcs u") simp_all
    qed
    with A show ?thesis
      by (intro data_okB [where h = t]) (simp_all add: InitializeCriticalSection_def)
  next
    case (B h)
    from B(5) [of t] show ?thesis by (simp add: assms(2))
  next
    case C
    from C(4) [of t] show ?thesis by (simp add: assms(2))
  qed
  with g' show ?thesis by (simp add: st lock_inv_def)
qed

lemma step_SetInit:
  assumes "lock_inv (pcs, s)" "pcs t = SetInit"
  shows "lock_inv (sched_step t (pcs, s))"
proof -
  from assms(1) have g: "gate_ok (pcs, s)" and d: "data_ok (pcs, s)"
    by (simp_all add: lock_inv_def)
  let ?s = "s\<lparr>mutex := (mutex s)\<lparr>init := 1\<rparr>\<rparr>"
  have st: "sched_step t (pcs, s) = (pcs(t := ReleaseInitlock), ?s)"
    by (simp add: sched_step_def assms(2))
  have g': "gate_ok (pcs(t := ReleaseInitlock), ?s)"
    using g by (rule gate_ok_same) (simp_all add: assms(2))
  have only: "\<not> in_gate (pcs u)" if "u \<noteq> t" for u
    using gate_holder_unique [OF g, of t u] that by (auto simp: assms(2))
  from d have "data_ok (pcs(t := ReleaseInitlock), ?s)"
  proof (cases rule: data_okE)
    case A
    from A(4) [of t] show ?thesis by (simp add: assms(2))
  next
    case (B h)
    have "phaseC_pc ((pcs(t := ReleaseInitlock)) u)" for u
    proof (cases "u = t")
      case True
      then show ?thesis by simp
    next
      case False
      with only [of u] B(5) [of u] show ?thesis by (cases "pcs u") simp_all
    qed
    with B show ?thesis by (intro data_okC) simp_all
  next
    case C
    from C(4) [of t] show ?thesis by (simp add: assms(2))
  qed
  with g' show ?thesis by (simp add: st lock_inv_def)
qed

lemma step_ReleaseInitlock:
  assumes "lock_inv (pcs, s)" "pcs t = ReleaseInitlock"
  shows "lock_inv (sched_step t (pcs, s))"
proof -
  from assms(1) have g: "gate_ok (pcs, s)" and d: "data_ok (pcs, s)"
    by (simp_all add: lock_inv_def)
  have st: "sched_step t (pcs, s) = (pcs(t := EnterCS), s\<lparr>initlock := 0\<rparr>)"
    by (simp add: sched_step_def assms(2))
  have g': "gate_ok (pcs(t := EnterCS), s\<lparr>initlock := 0\<rparr>)"
    using g by (rule gate_ok_release) (simp_all add: assms(2))
  from d have "data_ok (pcs(t := EnterCS), s\<lparr>initlock := 0\<rparr>)"
  proof (cases rule: data_okE)
    case A
    from A(4) [of t] show ?thesis by (simp add: assms(2))
  next
    case (B h)
    from B(5) [of t] show ?thesis by (simp add: assms(2))
  next
    case C
    then show ?thesis by (intro data_okC) simp_all
  qed
  with g' show ?thesis by (simp add: st lock_inv_def)
qed

lemma step_EnterCS:
  assumes "lock_inv (pcs, s)" "pcs t = EnterCS"
  shows "lock_inv (sched_step t (pcs, s))"
proof -
  from assms(1) have g: "gate_ok (pcs, s)" and d: "data_ok (pcs, s)"
    by (simp_all add: lock_inv_def)
  from d show ?thesis
  proof (cases rule: data_okE)
    case A
    from A(4) [of t] show ?thesis by (simp add: assms(2))
  next
    case (B h)
    from B(5) [of t] show ?thesis by (simp add: assms(2))
  next
    case C
    show ?thesis
    proof (cases "EnterCriticalSection t (lock (mutex s))")
      case (Proceeds cs)
      then have cs: "cs \<noteq> CS_Uninit"
        by (cases "lock (mutex s)") (auto split: if_splits)
      have st: "sched_step t (pcs, s) = (pcs(t := Returned 0), s\<lparr>mutex := (mutex s)\<lparr>lock := cs\<rparr>\<rparr>)"
        by (simp add: sched_step_def assms(2) Proceeds)
      have "gate_ok (pcs(t := Returned 0), s\<lparr>mutex := (mutex s)\<lparr>lock := cs\<rparr>\<rparr>)"
        using g by (rule gate_ok_same) (simp_all add: assms(2))
      moreover have "data_ok (pcs(t := Returned 0), s\<lparr>mutex := (mutex s)\<lparr>lock := cs\<rparr>\<rparr>)"
        using C cs by (intro data_okC) simp_all
      ultimately show ?thesis by (simp add: st lock_inv_def)
    next
      case Blocks
      have "pcs(t := EnterCS) = pcs" using assms(2) by auto
      then have "sched_step t (pcs, s) = (pcs, s)"
        by (simp add: sched_step_def assms(2) Blocks)
      with assms(1) show ?thesis by simp
    next
      case Faults
      with C(3) show ?thesis by (cases "lock (mutex s)") (auto split: if_splits)
    qed
  qed
qed

lemma step_stuck:
  assumes "lock_inv (pcs, s)" "pcs t = Returned r \<or> pcs t = Crashed"
  shows "lock_inv (sched_step t (pcs, s))"
proof -
  have "sched_step t (pcs, s) = (pcs(t := pcs t), s)"
    using assms(2) by (auto simp: sched_step_def simp del: fun_upd_triv)
  with assms(1) show ?thesis by simp
qed

lemma lock_inv_step: "lock_inv c \<Longrightarrow> lock_inv (sched_step t c)"
proof -
  assume inv: "lock_inv c"
  obtain pcs s where c: "c = (pcs, s)" by (cases c)
  show ?thesis
    using inv unfolding c
    by (cases "pcs t")
      (blast intro: step_TestInit step_SpinInitlock step_RetestInit step_InitCS step_SetInit
        step_ReleaseInitlock step_EnterCS step_stuck)+
qed

lemma lock_inv_run: "lock_inv c \<Longrightarrow> lock_inv (run sched c)"
  by (induction sched arbitrary: c) (simp_all add: lock_inv_step)

lemma lock_inv_facts:
  assumes "lock_inv (pcs, s)"
  shows "init_calls s \<le> 1"
    and "pcs t = EnterCS \<or> (\<exists>r. pcs t = Returned r)
          \<Longrightarrow> init (mutex s) = 1 \<and> init_calls s = 1 \<and> lock (mutex s) \<noteq> CS_Uninit"
    and "in_gate (pcs t) \<and> in_gate (pcs u) \<Longrightarrow> t = u"
    and "pcs t \<noteq> Crashed"
    and "pcs t = Returned r \<Longrightarrow> r = 0"
proof -
  from assms have g: "gate_ok (pcs, s)" and d: "data_ok (pcs, s)"
    by (simp_all add: lock_inv_def)
  from d show "init_calls s \<le> 1" by (cases rule: data_okE) simp_all
  from d show "init (mutex s) = 1 \<and> init_calls s = 1 \<and> lock (mutex s) \<noteq> CS_Uninit"
    if "pcs t = EnterCS \<or> (\<exists>r. pcs t = Returned r)"
  proof (cases rule: data_okE)
    case A
    from A(4) [of t] that show ?thesis by auto
  next
    case (B h)
    from B(5) [of t] that show ?thesis by auto
  next
    case C
    then show ?thesis by simp
  qed
  show "t = u" if "in_gate (pcs t) \<and> in_gate (pcs u)"
    using gate_holder_unique [OF g, of u t] that by simp
  from d show "pcs t \<noteq> Crashed"
  proof (cases rule: data_okE)
    case A
    from A(4) [of t] show ?thesis by auto
  next
    case (B h)
    from B(5) [of t] show ?thesis by auto
  next
    case C
    from C(4) [of t] show ?thesis by auto
  qed
  from d show "r = 0" if "pcs t = Returned r"
  proof (cases rule: data_okE)
    case A
    from A(4) [of t] that show ?thesis by auto
  next
    case (B h)
    from B(5) [of t] that show ?thesis by auto
  next
    case C
    from C(4) [of t] that show ?thesis by auto
  qed
qed

lemma spin_step:
  "lock_step t SpinInitlock s
   = (if initlock s = 0 then (RetestInit, s\<lparr>initlock := 1\<rparr>) else (SpinInitlock, s))"
  by (simp add: InterlockedCompareExchange_def)

text \<open>
  C1: threads call \<open>mutex_lock\<close> on a Mutex in its static zero state, with \<open>initlock\<close>
  free, under any schedule of their steps. Then \<open>InitializeCriticalSection\<close> has run at
  most once; every thread that has reached \<open>EnterCriticalSection\<close> or has returned finds
  the init flag set, after exactly one initialisation of a lock that is initialised; at
  most one thread is between winning the compare-and-swap on \<open>initlock\<close> and resetting
  it; no thread faults. The gate is \<open>initlock\<close>, not the Mutex's lock: a thread that
  finds it 0 sets it to 1 and goes on to test the flag again, a thread that finds it
  taken stays at the compare-and-swap, and the thread inside initialises only if the
  flag is still 0.
\<close>

theorem deferred_init_once:
  "init_calls (snd (run sched (\<lambda>t. TestInit, start))) \<le> 1
   \<and> (\<forall>t. fst (run sched (\<lambda>t. TestInit, start)) t = EnterCS
          \<or> (\<exists>r. fst (run sched (\<lambda>t. TestInit, start)) t = Returned r)
        \<longrightarrow> init (mutex (snd (run sched (\<lambda>t. TestInit, start)))) = 1
            \<and> init_calls (snd (run sched (\<lambda>t. TestInit, start))) = 1
            \<and> lock (mutex (snd (run sched (\<lambda>t. TestInit, start)))) \<noteq> CS_Uninit)
   \<and> (\<forall>t u. in_gate (fst (run sched (\<lambda>t. TestInit, start)) t)
            \<and> in_gate (fst (run sched (\<lambda>t. TestInit, start)) u) \<longrightarrow> t = u)
   \<and> (\<forall>t. fst (run sched (\<lambda>t. TestInit, start)) t \<noteq> Crashed)
   \<and> (\<forall>t s. lock_step t SpinInitlock s
        = (if initlock s = 0 then (RetestInit, s\<lparr>initlock := 1\<rparr>) else (SpinInitlock, s)))
   \<and> (\<forall>t s. lock_step t RetestInit s
        = (if init (mutex s) = 0 then InitCS else ReleaseInitlock, s))"
proof -
  obtain pcs s where c: "run sched (\<lambda>t. TestInit, start) = (pcs, s)"
    by (cases "run sched (\<lambda>t. TestInit, start)")
  have "lock_inv (run sched (\<lambda>t. TestInit, start))"
    using lock_inv_start by (rule lock_inv_run)
  then have inv: "lock_inv (pcs, s)" by (simp add: c)
  note f = lock_inv_facts [OF inv]
  have a: "init_calls s \<le> 1" by (rule f(1))
  have b: "\<forall>t. pcs t = EnterCS \<or> (\<exists>r. pcs t = Returned r)
        \<longrightarrow> init (mutex s) = 1 \<and> init_calls s = 1 \<and> lock (mutex s) \<noteq> CS_Uninit"
    using f(2) by blast
  have g: "\<forall>t u. in_gate (pcs t) \<and> in_gate (pcs u) \<longrightarrow> t = u"
    using f(3) by blast
  have h: "\<forall>t. pcs t \<noteq> Crashed" using f(4) by blast
  have i: "\<forall>t s. lock_step t SpinInitlock s
        = (if initlock s = 0 then (RetestInit, s\<lparr>initlock := 1\<rparr>) else (SpinInitlock, s))"
    using spin_step by blast
  have j: "\<forall>t s. lock_step t RetestInit s
        = (if init (mutex s) = 0 then InitCS else ReleaseInitlock, s)"
    by simp
  from a b g h i j show ?thesis unfolding c fst_conv snd_conv by (intro conjI)
qed

lemma run_two_threads:
  "fst (run [0, 1, 0, 1, 0, 1, 0, 1, 0, 1, 0, 1, 0, 1, 1, 1] (\<lambda>t. TestInit, start)) 0 = Returned 0"
  "fst (run [0, 1, 0, 1, 0, 1, 0, 1, 0, 1, 0, 1, 0, 1, 1, 1] (\<lambda>t. TestInit, start)) 1 = EnterCS"
  "snd (run [0, 1, 0, 1, 0, 1, 0, 1, 0, 1, 0, 1, 0, 1, 1, 1] (\<lambda>t. TestInit, start))
     = \<lparr>mutex = \<lparr>lock = CS_Held 0 1, init = 1\<rparr>, initlock = 0, init_calls = 1\<rparr>"
  by code_simp+

theorem deferred_init_once_witness:
  "fst (run [0, 1, 0, 1, 0, 1, 0, 1, 0, 1, 0, 1, 0, 1, 1, 1] (\<lambda>t. TestInit, start)) 0 = Returned 0
   \<and> fst (run [0, 1, 0, 1, 0, 1, 0, 1, 0, 1, 0, 1, 0, 1, 1, 1] (\<lambda>t. TestInit, start)) 1 = EnterCS
   \<and> init (mutex (snd (run [0, 1, 0, 1, 0, 1, 0, 1, 0, 1, 0, 1, 0, 1, 1, 1] (\<lambda>t. TestInit, start)))) = 1
   \<and> init_calls (snd (run [0, 1, 0, 1, 0, 1, 0, 1, 0, 1, 0, 1, 0, 1, 1, 1] (\<lambda>t. TestInit, start))) = 1"
proof -
  let ?c = "run [0, 1, 0, 1, 0, 1, 0, 1, 0, 1, 0, 1, 0, 1, 1, 1] (\<lambda>t. TestInit, start)"
  have p0: "fst ?c 0 = Returned 0" and p1: "fst ?c 1 = EnterCS"
    by (rule run_two_threads(1), rule run_two_threads(2))
  have "fst ?c 1 = EnterCS \<or> (\<exists>r. fst ?c 1 = Returned r)
      \<longrightarrow> init (mutex (snd ?c)) = 1 \<and> init_calls (snd ?c) = 1 \<and> lock (mutex (snd ?c)) \<noteq> CS_Uninit"
    using deferred_init_once [of "[0, 1, 0, 1, 0, 1, 0, 1, 0, 1, 0, 1, 0, 1, 1, 1]"] by blast
  with p1 have "init (mutex (snd ?c)) = 1 \<and> init_calls (snd ?c) = 1" by blast
  with p0 p1 show ?thesis by blast
qed

section \<open>Return values of the Windows Mutex operations\<close>

text \<open>
  With \<open>mutex_lock\<close> run alone, a call that returns at all returns after a bounded
  number of steps; more fuel does not change the result.
\<close>

lemma lock_step_returns_zero:
  "lock_step t p s = (Returned r, s') \<Longrightarrow> p = Returned r \<or> r = 0"
  by (cases p) (auto simp: Let_def split: if_splits prod.splits attempt.splits)

lemma lock_pc_cases:
  obtains (returned) r where "p = Returned r" | (crashed) "p = Crashed"
    | (running) "p \<noteq> Crashed" "\<And>r. p \<noteq> Returned r"
  by (cases p) simp_all

lemma lock_run_Suc:
  assumes "p \<noteq> Crashed" "\<And>r. p \<noteq> Returned r"
  shows "lock_run (Suc k) t p s = (case lock_step t p s of (p', s') \<Rightarrow> lock_run k t p' s')"
  using assms by (cases p) (auto simp del: lock_step.simps)

lemma lock_run_returns_zero:
  "lock_run fuel t p s = Some (r, s') \<Longrightarrow> (\<forall>r'. p = Returned r' \<longrightarrow> r' = 0) \<Longrightarrow> r = 0"
proof (induction fuel arbitrary: p s)
  case 0
  then show ?case by (cases p) simp_all
next
  case (Suc fuel)
  show ?case
  proof (cases p rule: lock_pc_cases)
    case (returned r')
    with Suc.prems show ?thesis by simp
  next
    case crashed
    with Suc.prems show ?thesis by simp
  next
    case running
    obtain p' s1 where st: "lock_step t p s = (p', s1)" by (cases "lock_step t p s")
    have "lock_run (Suc fuel) t p s = lock_run fuel t p' s1"
      by (simp only: lock_run_Suc [OF running] st prod.case)
    with Suc.prems(1) have run: "lock_run fuel t p' s1 = Some (r, s')" by simp
    have "\<forall>r'. p' = Returned r' \<longrightarrow> r' = 0"
    proof (intro allI impI)
      fix r'
      assume "p' = Returned r'"
      with st have "lock_step t p s = (Returned r', s1)" by simp
      then have "p = Returned r' \<or> r' = 0" by (rule lock_step_returns_zero)
      with running(2) show "r' = 0" by simp
    qed
    with run show ?thesis by (rule Suc.IH)
  qed
qed

lemma lock_run_more_fuel:
  "lock_run fuel t p s = Some x \<Longrightarrow> lock_run (Suc fuel) t p s = Some x"
proof (induction fuel arbitrary: p s)
  case 0
  then show ?case by (cases p) simp_all
next
  case (Suc fuel)
  show ?case
  proof (cases p rule: lock_pc_cases)
    case (returned r')
    with Suc.prems show ?thesis by simp
  next
    case crashed
    with Suc.prems show ?thesis by simp
  next
    case running
    obtain p' s1 where st: "lock_step t p s = (p', s1)" by (cases "lock_step t p s")
    have unf: "lock_run (Suc k) t p s = lock_run k t p' s1" for k
      by (simp only: lock_run_Suc [OF running] st prod.case)
    from Suc.prems have "lock_run fuel t p' s1 = Some x" by (simp only: unf)
    then have "lock_run (Suc fuel) t p' s1 = Some x" by (rule Suc.IH)
    then show ?thesis by (simp only: unf)
  qed
qed

lemma lock_run_fuel_mono:
  "lock_run fuel t p s = Some x \<Longrightarrow> lock_run (fuel + k) t p s = Some x"
  by (induction k) (simp_all add: lock_run_more_fuel)

lemma mutex_lock_initialized:
  assumes "init (mutex s) \<noteq> 0"
    and "lock (mutex s) = CS_Free \<or> (\<exists>n. lock (mutex s) = CS_Held t n)"
  shows "\<exists>s'. mutex_lock 2 t s = Some (0, s')"
  using assms by (auto simp: mutex_lock_def numeral_2_eq_2)

lemma mutex_lock_deferred:
  assumes "init (mutex s) = 0" "initlock s = 0"
  shows "mutex_lock 7 t s
    = Some (0, \<lparr>mutex = \<lparr>lock = CS_Held t 1, init = 1\<rparr>, initlock = 0,
                init_calls = init_calls s + 1\<rparr>)"
proof -
  obtain m il n where s: "s = \<lparr>mutex = m, initlock = il, init_calls = n\<rparr>" by (cases s)
  obtain l i where m: "m = \<lparr>lock = l, init = i\<rparr>" by (cases m)
  from assms have z: "i = 0" "il = 0" by (simp_all add: s m)
  let ?s0 = "\<lparr>mutex = \<lparr>lock = l, init = 0\<rparr>, initlock = 0, init_calls = n\<rparr>"
  let ?s1 = "\<lparr>mutex = \<lparr>lock = l, init = 0\<rparr>, initlock = 1, init_calls = n\<rparr>"
  let ?s2 = "\<lparr>mutex = \<lparr>lock = CS_Free, init = 0\<rparr>, initlock = 1, init_calls = n + 1\<rparr>"
  let ?s3 = "\<lparr>mutex = \<lparr>lock = CS_Free, init = 1\<rparr>, initlock = 1, init_calls = n + 1\<rparr>"
  let ?s4 = "\<lparr>mutex = \<lparr>lock = CS_Free, init = 1\<rparr>, initlock = 0, init_calls = n + 1\<rparr>"
  let ?s5 = "\<lparr>mutex = \<lparr>lock = CS_Held t 1, init = 1\<rparr>, initlock = 0, init_calls = n + 1\<rparr>"
  have "lock_run (Suc (Suc (Suc (Suc (Suc (Suc (Suc 0))))))) t TestInit ?s0
      = lock_run (Suc (Suc (Suc (Suc (Suc (Suc 0)))))) t SpinInitlock ?s0"
    by (subst lock_run_Suc) simp_all
  also have "\<dots> = lock_run (Suc (Suc (Suc (Suc (Suc 0))))) t RetestInit ?s1"
    by (subst lock_run_Suc) (simp_all add: InterlockedCompareExchange_def)
  also have "\<dots> = lock_run (Suc (Suc (Suc (Suc 0)))) t InitCS ?s1"
    by (subst lock_run_Suc) simp_all
  also have "\<dots> = lock_run (Suc (Suc (Suc 0))) t SetInit ?s2"
    by (subst lock_run_Suc) (simp_all add: InitializeCriticalSection_def)
  also have "\<dots> = lock_run (Suc (Suc 0)) t ReleaseInitlock ?s3"
    by (subst lock_run_Suc) simp_all
  also have "\<dots> = lock_run (Suc 0) t EnterCS ?s4"
    by (subst lock_run_Suc) simp_all
  also have "\<dots> = lock_run 0 t (Returned 0) ?s5"
    by (subst lock_run_Suc) simp_all
  also have "\<dots> = Some (0, ?s5)" by simp
  finally show ?thesis
    unfolding s m z mutex_lock_def by (simp add: eval_nat_numeral)
qed

text \<open>
  C3: on the Windows backend \<open>mutex_lock\<close> and \<open>mutex_unlock\<close> return 0 for every Mutex:
  the only value either can return is 0. \<open>mutex_unlock\<close> always returns; \<open>mutex_lock\<close>
  returns (0) within two steps on an initialised Mutex that is free or held by the
  caller, and within seven on a Mutex with the flag unset when \<open>initlock\<close> is free.
\<close>

theorem win_lock_unlock_return_zero:
  "(\<forall>r s'. mutex_lock fuel t s = Some (r, s') \<longrightarrow> r = 0)
   \<and> fst (mutex_unlock t s) = 0
   \<and> (init (mutex s) \<noteq> 0 \<and> (lock (mutex s) = CS_Free \<or> (\<exists>n. lock (mutex s) = CS_Held t n))
        \<longrightarrow> (\<exists>s'. mutex_lock (2 + k) t s = Some (0, s')))
   \<and> (init (mutex s) = 0 \<and> initlock s = 0 \<longrightarrow> (\<exists>s'. mutex_lock (7 + k) t s = Some (0, s')))"
proof -
  have a: "\<forall>r s'. mutex_lock fuel t s = Some (r, s') \<longrightarrow> r = 0"
    unfolding mutex_lock_def using lock_run_returns_zero [of fuel t TestInit s] by auto
  have b: "fst (mutex_unlock t s) = 0" by (simp add: mutex_unlock_def)
  have c: "\<exists>s'. mutex_lock (2 + k) t s = Some (0, s')"
    if "init (mutex s) \<noteq> 0 \<and> (lock (mutex s) = CS_Free \<or> (\<exists>n. lock (mutex s) = CS_Held t n))"
  proof -
    from that obtain s' where "mutex_lock 2 t s = Some (0, s')"
      using mutex_lock_initialized [of s t] by blast
    then have "mutex_lock (2 + k) t s = Some (0, s')"
      unfolding mutex_lock_def by (rule lock_run_fuel_mono)
    then show ?thesis by blast
  qed
  have d: "\<exists>s'. mutex_lock (7 + k) t s = Some (0, s')"
    if "init (mutex s) = 0 \<and> initlock s = 0"
  proof -
    from that obtain s' where "mutex_lock 7 t s = Some (0, s')"
      using mutex_lock_deferred [of s t] by blast
    then have "mutex_lock (7 + k) t s = Some (0, s')"
      unfolding mutex_lock_def by (rule lock_run_fuel_mono)
    then show ?thesis by blast
  qed
  from a b c d show ?thesis by blast
qed

theorem win_lock_unlock_return_zero_witness:
  "mutex_lock 7 5 start
     = Some (0, \<lparr>mutex = \<lparr>lock = CS_Held 5 1, init = 1\<rparr>, initlock = 0, init_calls = 1\<rparr>)
   \<and> mutex_lock 2 5 \<lparr>mutex = \<lparr>lock = CS_Free, init = 1\<rparr>, initlock = 0, init_calls = 1\<rparr>
     = Some (0, \<lparr>mutex = \<lparr>lock = CS_Held 5 1, init = 1\<rparr>, initlock = 0, init_calls = 1\<rparr>)
   \<and> mutex_unlock 5 \<lparr>mutex = \<lparr>lock = CS_Held 5 1, init = 1\<rparr>, initlock = 0, init_calls = 1\<rparr>
     = (0, \<lparr>mutex = \<lparr>lock = CS_Free, init = 1\<rparr>, initlock = 0, init_calls = 1\<rparr>)"
proof -
  let ?held = "\<lparr>mutex = \<lparr>lock = CS_Held 5 1, init = 1\<rparr>, initlock = 0, init_calls = 1\<rparr>"
  let ?free = "\<lparr>mutex = \<lparr>lock = CS_Free, init = 1\<rparr>, initlock = 0, init_calls = 1\<rparr>"
  have "init (mutex start) = 0 \<and> initlock start = 0 \<longrightarrow> (\<exists>s'. mutex_lock (7 + 0) 5 start = Some (0, s'))"
    using win_lock_unlock_return_zero [of 7 5 start 0] by blast
  then obtain s1 where l1: "mutex_lock 7 5 start = Some (0, s1)"
    by (auto simp: start_def MUTEX_INITIALIZER_def)
  have e1: "mutex_lock 7 5 start = Some (0, ?held)"
    using mutex_lock_deferred [of start 5] by (simp add: start_def MUTEX_INITIALIZER_def)
  have e2: "mutex_lock 2 5 ?free = Some (0, ?held)"
    by (simp add: mutex_lock_def numeral_2_eq_2)
  have e3: "mutex_unlock 5 ?held = (0, ?free)"
    by (simp add: mutex_unlock_def)
  from l1 e1 e2 e3 show ?thesis by simp
qed

section \<open>Destroying a Windows Mutex\<close>

text \<open>
  C4: on the Windows backend \<open>mutex_end\<close> (and \<open>mutex_free\<close>, which is the same) deletes
  the critical section, resets the init flag to 0 and returns 0; a following
  \<open>mutex_lock\<close>, with \<open>initlock\<close> free, takes the deferred initialisation again:
  \<open>InitializeCriticalSection\<close> runs once more, the flag is set, and the caller holds the
  lock.
\<close>

theorem destroy_resets_init:
  "fst (mutex_end s) = 0
   \<and> init (mutex (snd (mutex_end s))) = 0
   \<and> lock (mutex (snd (mutex_end s))) = CS_Uninit
   \<and> mutex_free s = mutex_end s
   \<and> (initlock s = 0 \<longrightarrow>
        mutex_lock 7 t (snd (mutex_end s))
        = Some (0, \<lparr>mutex = \<lparr>lock = CS_Held t 1, init = 1\<rparr>, initlock = 0,
                    init_calls = init_calls s + 1\<rparr>))"
proof -
  let ?s = "snd (mutex_end s)"
  have a: "fst (mutex_end s) = 0" "init (mutex ?s) = 0" "lock (mutex ?s) = CS_Uninit"
    "initlock ?s = initlock s" "init_calls ?s = init_calls s"
    by (simp_all add: mutex_end_def DeleteCriticalSection_def Let_def)
  have b: "mutex_free s = mutex_end s" by (simp add: mutex_free_def mutex_end_def)
  have c: "mutex_lock 7 t ?s
        = Some (0, \<lparr>mutex = \<lparr>lock = CS_Held t 1, init = 1\<rparr>, initlock = 0,
                    init_calls = init_calls s + 1\<rparr>)" if "initlock s = 0"
    using mutex_lock_deferred [of ?s t] a that by simp
  from a(1,2,3) b c show ?thesis by blast
qed

theorem destroy_resets_init_witness:
  "mutex_lock 7 2 (snd (mutex_end
      \<lparr>mutex = \<lparr>lock = CS_Free, init = 1\<rparr>, initlock = 0, init_calls = 1\<rparr>))
   = Some (0, \<lparr>mutex = \<lparr>lock = CS_Held 2 1, init = 1\<rparr>, initlock = 0, init_calls = 2\<rparr>)"
  using destroy_resets_init [of "\<lparr>mutex = \<lparr>lock = CS_Free, init = 1\<rparr>, initlock = 0, init_calls = 1\<rparr>" 2]
  by simp

end
